theory Spec2Isabelle
  imports Main "HOL-Library.Log_Nat" "HOL-Library.Sublist"
begin

section \<open>The C++ type \<open>double\<close>\<close>

text \<open>
  Every number the program computes with is a \<open>double\<close>: an IEEE 754 binary64 value,
  with 53 bits of precision, exponents from \<open>-1074\<close> (the unit of the subnormal
  numbers) to \<open>971\<close>, two zeros, two infinities and NaN. The program never changes the
  rounding mode, so every operation rounds its exact result to the nearest double, ties
  to the even significand.

  A finite double other than \<open>-0.0\<close> is represented by its exact rational value
  (\<open>Fin 0\<close> is \<open>+0.0\<close>). Not every rational is the value of a double: \<open>is_double\<close>
  below says which are.
\<close>

datatype double = Fin rat | NegZero | PosInf | NegInf | NaN

definition pow2 :: "int \<Rightarrow> rat" where
  "pow2 k = (if 0 \<le> k then 2 ^ nat k else 1 / 2 ^ nat (- k))"

text \<open>\<open>floor_log2 a\<close> is the integer \<open>k\<close> with \<open>2^k \<le> a < 2^(k+1)\<close>, for \<open>a > 0\<close>.\<close>

definition floor_log2 :: "rat \<Rightarrow> int" where
  "floor_log2 a =
     (let (p, d) = quotient_of a;
          k = bitlen p - bitlen d
      in if pow2 k \<le> a then k else k - 1)"

text \<open>Rounding a non-negative rational to the nearest integer, ties to even.\<close>

definition round_half_even :: "rat \<Rightarrow> int" where
  "round_half_even s =
     (let f = \<lfloor>s\<rfloor>; r = s - of_int f
      in if r < 1 / 2 then f
         else if 1 / 2 < r then f + 1
         else if even f then f else f + 1)"

text \<open>
  The magnitude \<open>a > 0\<close> rounded to 53 significant bits, as a significand \<open>m\<close> and an
  exponent \<open>e\<close> (the result is \<open>m * 2^e\<close>). Below \<open>2^-1022\<close> the grid is the
  subnormal one, of step \<open>2^-1074\<close>. A significand that rounds up to \<open>2^53\<close> is
  renormalised.
\<close>

definition round_mag :: "rat \<Rightarrow> int \<times> int" where
  "round_mag a =
     (let e = max (floor_log2 a - 52) (- 1074);
          m = round_half_even (a / pow2 e)
      in if m = 2 ^ 53 then (2 ^ 52, e + 1) else (m, e))"

definition signed_zero :: "bool \<Rightarrow> double" where
  "signed_zero neg = (if neg then NegZero else Fin 0)"

definition signed_inf :: "bool \<Rightarrow> double" where
  "signed_inf neg = (if neg then NegInf else PosInf)"

text \<open>
  The double nearest to a non-zero exact result \<open>q\<close>. The largest exponent of a finite
  double is \<open>971\<close> (its largest value is \<open>(2^53 - 1) * 2^971\<close>): a magnitude that
  rounds beyond overflows to an infinity, one that rounds to nothing underflows to a
  zero, and both keep the sign of \<open>q\<close>.
\<close>

definition round_double :: "rat \<Rightarrow> double" where
  "round_double q =
     (let (m, e) = round_mag \<bar>q\<bar>
      in if 971 < e then signed_inf (q < 0)
         else if m = 0 then signed_zero (q < 0)
         else Fin ((if q < 0 then - 1 else 1) * of_int m * pow2 e))"

text \<open>
  The values a \<open>double\<close> variable can hold: those that rounding leaves as they are.
  Section Rounding shows that these are the numbers \<open>m * 2^e\<close> of the binary64 format
  (\<open>is_double_grid\<close>), that every operation returns one of them
  (\<open>is_double_fadd\<close>, \<open>is_double_fdiv\<close>), and that \<open>round_double\<close> returns a double
  nearest to its argument (\<open>round_double_nearest\<close>).
\<close>

fun is_double :: "double \<Rightarrow> bool" where
  "is_double (Fin q) = (q = 0 \<or> round_double q = Fin q)"
| "is_double _ = True"

fun sign_bit :: "double \<Rightarrow> bool" where
  "sign_bit (Fin q) = (q < 0)"
| "sign_bit NegZero = True"
| "sign_bit PosInf = False"
| "sign_bit NegInf = True"
| "sign_bit NaN = False"

fun is_zero :: "double \<Rightarrow> bool" where
  "is_zero (Fin q) = (q = 0)"
| "is_zero NegZero = True"
| "is_zero _ = False"

fun is_inf :: "double \<Rightarrow> bool" where
  "is_inf PosInf = True"
| "is_inf NegInf = True"
| "is_inf _ = False"

text \<open>The exact value of a finite double.\<close>

fun val :: "double \<Rightarrow> rat" where
  "val (Fin q) = q"
| "val _ = 0"

text \<open>
  \<open>x + y\<close> on doubles. An exact sum of zero is \<open>+0.0\<close>, except that
  \<open>-0.0 + -0.0\<close> is \<open>-0.0\<close>; infinities of opposite sign add to NaN.
\<close>

fun fadd :: "double \<Rightarrow> double \<Rightarrow> double" where
  "fadd NaN _ = NaN"
| "fadd _ NaN = NaN"
| "fadd PosInf NegInf = NaN"
| "fadd NegInf PosInf = NaN"
| "fadd PosInf _ = PosInf"
| "fadd _ PosInf = PosInf"
| "fadd NegInf _ = NegInf"
| "fadd _ NegInf = NegInf"
| "fadd NegZero NegZero = NegZero"
| "fadd NegZero (Fin q) = Fin q"
| "fadd (Fin p) NegZero = Fin p"
| "fadd (Fin p) (Fin q) = (if p + q = 0 then Fin 0 else round_double (p + q))"

text \<open>
  \<open>x / y\<close> on doubles. The sign of the quotient is the exclusive or of the signs;
  \<open>0/0\<close> and \<open>inf/inf\<close> are NaN, a non-zero number over zero is an infinity.
\<close>

definition fdiv :: "double \<Rightarrow> double \<Rightarrow> double" where
  "fdiv x y =
     (if x = NaN \<or> y = NaN then NaN
      else if is_inf x \<and> is_inf y then NaN
      else if is_zero x \<and> is_zero y then NaN
      else if is_inf x \<or> is_zero y then signed_inf (sign_bit x \<noteq> sign_bit y)
      else if is_inf y \<or> is_zero x then signed_zero (sign_bit x \<noteq> sign_bit y)
      else round_double (val x / val y))"

text \<open>The conversion of an \<open>int\<close> to \<open>double\<close> (exact up to \<open>2^53\<close>).\<close>

definition double_of_int :: "int \<Rightarrow> double" where
  "double_of_int n = (if n = 0 then Fin 0 else round_double (of_int n))"


section \<open>The data of the program\<close>

text \<open>
  \<open>enum VehicleType { GT3 = 1, Formula, Rally }\<close> is an unscoped enumeration: a
  variable of the type holds an integer, and \<open>static_cast<VehicleType>(choice)\<close> in
  \<open>main\<close> stores whatever integer the user typed. The type is therefore the integers,
  with three named values.
\<close>

type_synonym VehicleType = int

definition GT3 :: VehicleType where
  "GT3 = 1"

definition Formula :: VehicleType where
  "Formula = 2"

definition Rally :: VehicleType where
  "Rally = 3"

text \<open>\<open>struct Session\<close>. The array \<open>double lapTimes[3]\<close> is a list; its length is
  part of \<open>wf_Session\<close>.\<close>

record Session =
  driverName :: string
  trackName :: string
  vehicle :: VehicleType
  lapTimes :: "double list"

definition wf_Session :: "Session \<Rightarrow> bool" where
  "wf_Session s = (length (lapTimes s) = 3 \<and> list_all is_double (lapTimes s))"

text \<open>The private members of \<open>class MotorsportManager\<close>.\<close>

definition MAX_SESSIONS :: int where
  "MAX_SESSIONS = 5"

record MotorsportManager =
  sessions :: "Session list"
  sessionCount :: int

text \<open>
  Indexing a C++ array outside its bounds is undefined behaviour. The model makes it a
  value: every access to an array goes through \<open>array_read\<close> or \<open>array_write\<close>, which
  return \<open>Inl OutOfBounds\<close> there.
\<close>

datatype fault = OutOfBounds

definition array_read :: "'a list \<Rightarrow> int \<Rightarrow> fault + 'a" where
  "array_read xs i =
     (if 0 \<le> i \<and> i < int (length xs) then Inr (xs ! nat i) else Inl OutOfBounds)"

definition array_write :: "'a list \<Rightarrow> int \<Rightarrow> 'a \<Rightarrow> fault + 'a list" where
  "array_write xs i x =
     (if 0 \<le> i \<and> i < int (length xs) then Inr (xs[nat i := x]) else Inl OutOfBounds)"

section \<open>The member functions\<close>

text \<open>
  The constructor sets \<open>sessionCount = 0\<close> and default-initialises the five array
  slots: the two strings of a slot are empty, its \<open>vehicle\<close> and its lap times are
  indeterminate. The indeterminate values are the parameters \<open>v\<close> and \<open>t\<close> (slot
  \<open>i\<close> holds vehicle \<open>v i\<close> and lap times \<open>t i 0\<close>, \<open>t i 1\<close>, \<open>t i 2\<close>).
\<close>

definition MotorsportManager_new ::
    "(nat \<Rightarrow> VehicleType) \<Rightarrow> (nat \<Rightarrow> nat \<Rightarrow> double) \<Rightarrow> MotorsportManager" where
  "MotorsportManager_new v t =
     \<lparr>sessions =
        map (\<lambda>i. \<lparr>driverName = [], trackName = [], vehicle = v i,
                  lapTimes = map (t i) [0..<3]\<rparr>) [0..<5],
      sessionCount = 0\<rparr>"

text \<open>
  \<open>addSession\<close> returns its result and the updated object. The increment of
  \<open>sessionCount\<close> happens below \<open>MAX_SESSIONS\<close> only, so it cannot overflow.
\<close>

definition addSession ::
    "MotorsportManager \<Rightarrow> Session \<Rightarrow> fault + (bool \<times> MotorsportManager)" where
  "addSession m s =
     (if sessionCount m \<ge> MAX_SESSIONS then Inr (False, m)
      else
        (case array_write (sessions m) (sessionCount m) s of
           Inl f \<Rightarrow> Inl f
         | Inr a \<Rightarrow> Inr (True, m\<lparr>sessions := a, sessionCount := sessionCount m + 1\<rparr>)))"

definition getSessionCount :: "MotorsportManager \<Rightarrow> int" where
  "getSessionCount m = sessionCount m"

text \<open>The loop \<open>for (int i = 0; i < 3; i++) total += s.lapTimes[i];\<close>\<close>

function calculateAverageLap_loop :: "Session \<Rightarrow> int \<Rightarrow> double \<Rightarrow> fault + double" where
  "calculateAverageLap_loop s i tot =
     (if i < 3 then
        (case array_read (lapTimes s) i of
           Inl f \<Rightarrow> Inl f
         | Inr x \<Rightarrow> calculateAverageLap_loop s (i + 1) (fadd tot x))
      else Inr tot)"
  by pat_completeness auto
termination
  by (relation "measure (\<lambda>(s, i, tot). nat (3 - i))") auto

text \<open>The literal \<open>3.0\<close> is the double of value 3. The object is a parameter, as
  \<open>this\<close> is in the source; the function does not look at it.\<close>

definition calculateAverageLap :: "MotorsportManager \<Rightarrow> Session \<Rightarrow> fault + double" where
  "calculateAverageLap m s =
     (case calculateAverageLap_loop s 0 (Fin 0) of
        Inl f \<Rightarrow> Inl f
      | Inr tot \<Rightarrow> Inr (fdiv tot (Fin 3)))"

text \<open>
  The two nested loops of \<open>calculateOverallAverage\<close>, on the pair of the local
  variables \<open>total\<close> (written \<open>tot\<close>) and \<open>lapCount\<close>. \<open>lapCount\<close> counts
  three per array slot read, so it stays below 16 on the five slots and never
  overflows.
\<close>

function calculateOverallAverage_inner ::
    "MotorsportManager \<Rightarrow> int \<Rightarrow> int \<Rightarrow> double \<times> int \<Rightarrow> fault + double \<times> int" where
  "calculateOverallAverage_inner m i j (tot, lapCount) =
     (if j < 3 then
        (case array_read (sessions m) i of
           Inl f \<Rightarrow> Inl f
         | Inr s \<Rightarrow>
             (case array_read (lapTimes s) j of
                Inl f \<Rightarrow> Inl f
              | Inr x \<Rightarrow>
                  calculateOverallAverage_inner m i (j + 1) (fadd tot x, lapCount + 1)))
      else Inr (tot, lapCount))"
  by pat_completeness auto
termination
  by (relation "measure (\<lambda>(m, i, j, acc). nat (3 - j))") auto

function calculateOverallAverage_outer ::
    "MotorsportManager \<Rightarrow> int \<Rightarrow> double \<times> int \<Rightarrow> fault + double \<times> int" where
  "calculateOverallAverage_outer m i acc =
     (if i < sessionCount m then
        (case calculateOverallAverage_inner m i 0 acc of
           Inl f \<Rightarrow> Inl f
         | Inr acc' \<Rightarrow> calculateOverallAverage_outer m (i + 1) acc')
      else Inr acc)"
  by pat_completeness auto
termination
  by (relation "measure (\<lambda>(m, i, acc). nat (sessionCount m - i))") auto

definition calculateOverallAverage :: "MotorsportManager \<Rightarrow> fault + double" where
  "calculateOverallAverage m =
     (if sessionCount m = 0 then Inr (Fin 0)
      else
        (case calculateOverallAverage_outer m 0 (Fin 0, 0) of
           Inl f \<Rightarrow> Inl f
         | Inr (tot, lapCount) \<Rightarrow> Inr (fdiv tot (double_of_int lapCount))))"

definition getBaseLapTime :: "MotorsportManager \<Rightarrow> VehicleType \<Rightarrow> double" where
  "getBaseLapTime m veh =
     (if veh = GT3 then Fin 95
      else if veh = Formula then Fin 70
      else Fin 120)"

section \<open>Calls and reachable states\<close>

text \<open>
  The members are private, so an object changes only through calls of its public
  member functions. A call returns a result and the object after the call; the four
  \<open>const\<close> member functions return the object they were given.
\<close>

datatype call =
    AddSession Session
  | GetSessionCount
  | CalculateAverageLap Session
  | CalculateOverallAverage
  | GetBaseLapTime VehicleType

datatype result = RBool bool | RInt int | RDouble double

fun exec :: "call \<Rightarrow> MotorsportManager \<Rightarrow> fault + (result \<times> MotorsportManager)" where
  "exec (AddSession s) m =
     (case addSession m s of Inl f \<Rightarrow> Inl f | Inr (b, m') \<Rightarrow> Inr (RBool b, m'))"
| "exec GetSessionCount m = Inr (RInt (getSessionCount m), m)"
| "exec (CalculateAverageLap s) m =
     (case calculateAverageLap m s of Inl f \<Rightarrow> Inl f | Inr x \<Rightarrow> Inr (RDouble x, m))"
| "exec CalculateOverallAverage m =
     (case calculateOverallAverage m of Inl f \<Rightarrow> Inl f | Inr x \<Rightarrow> Inr (RDouble x, m))"
| "exec (GetBaseLapTime v) m = Inr (RDouble (getBaseLapTime m v), m)"

text \<open>A \<open>Session\<close> argument is a value of the C++ type: three lap times, each a double.\<close>

fun wf_call :: "call \<Rightarrow> bool" where
  "wf_call (AddSession s) = wf_Session s"
| "wf_call (CalculateAverageLap s) = wf_Session s"
| "wf_call _ = True"

inductive reachable :: "MotorsportManager \<Rightarrow> bool" where
  fresh: "reachable (MotorsportManager_new v t)"
| step: "reachable m \<Longrightarrow> wf_call c \<Longrightarrow> exec c m = Inr (r, m') \<Longrightarrow> reachable m'"

text \<open>The stored sessions: the first \<open>sessionCount\<close> slots of the array, in order.\<close>

definition stored :: "MotorsportManager \<Rightarrow> Session list" where
  "stored m = take (nat (sessionCount m)) (sessions m)"

text \<open>The class invariant: five slots, and a count between 0 and 5.\<close>

definition store_inv :: "MotorsportManager \<Rightarrow> bool" where
  "store_inv m =
     (int (length (sessions m)) = MAX_SESSIONS \<and> 0 \<le> sessionCount m \<and>
      sessionCount m \<le> MAX_SESSIONS)"

definition wf_store :: "MotorsportManager \<Rightarrow> bool" where
  "wf_store m = (store_inv m \<and> list_all wf_Session (stored m))"

text \<open>A sequence of \<open>addSession\<close> calls, with the list of their results.\<close>

fun addSessions ::
    "MotorsportManager \<Rightarrow> Session list \<Rightarrow> fault + (bool list \<times> MotorsportManager)" where
  "addSessions m [] = Inr ([], m)"
| "addSessions m (s # ss) =
     (case addSession m s of
        Inl f \<Rightarrow> Inl f
      | Inr (b, m') \<Rightarrow>
          (case addSessions m' ss of
             Inl f \<Rightarrow> Inl f
           | Inr (bs, m'') \<Rightarrow> Inr (b # bs, m'')))"

section \<open>Notions of the specification\<close>

text \<open>
  The sum of a list of doubles, as a program computes it: accumulated from \<open>0.0\<close>,
  left to right, each addition rounded.
\<close>

definition sum_in_order :: "double list \<Rightarrow> double" where
  "sum_in_order xs = foldl fadd (Fin 0) xs"

text \<open>
  Two doubles are the same number when they are identical or both are a zero
  (\<open>0.0 == -0.0\<close> in C++).
\<close>

definition same_number :: "double \<Rightarrow> double \<Rightarrow> bool" where
  "same_number x y = (x = y \<or> (is_zero x \<and> is_zero y))"

text \<open>
  The arithmetic mean of \<open>calculateAverageLap(s)\<close> over the stored sessions, in
  double arithmetic: the averages summed in order and divided by the count.
\<close>

fun session_averages :: "MotorsportManager \<Rightarrow> Session list \<Rightarrow> fault + double list" where
  "session_averages m [] = Inr []"
| "session_averages m (s # ss) =
     (case calculateAverageLap m s of
        Inl f \<Rightarrow> Inl f
      | Inr x \<Rightarrow>
          (case session_averages m ss of
             Inl f \<Rightarrow> Inl f
           | Inr xs \<Rightarrow> Inr (x # xs)))"

definition mean_of_session_averages :: "MotorsportManager \<Rightarrow> fault + double" where
  "mean_of_session_averages m =
     (case session_averages m (stored m) of
        Inl f \<Rightarrow> Inl f
      | Inr xs \<Rightarrow> Inr (fdiv (sum_in_order xs) (double_of_int (sessionCount m))))"

text \<open>
  The finite doubles, on which \<open>val\<close> is the exact value (the theorems that speak
  of exact values assume \<open>is_finite\<close>); the unit roundoff \<open>2^-53\<close>, the largest
  relative error of a rounding to nearest in the normal range; and half the least
  subnormal number, the largest error of a rounding below that range.
\<close>

fun is_finite :: "double \<Rightarrow> bool" where
  "is_finite (Fin q) = True"
| "is_finite NegZero = True"
| "is_finite _ = False"

definition unit_roundoff :: rat where
  "unit_roundoff = 1 / 2 ^ 53"

definition underflow_unit :: rat where
  "underflow_unit = pow2 (- 1075)"

text \<open>
  For a list of finite doubles: the exact sum of the values, the sum of their
  magnitudes, and the two means that go with them.
\<close>

definition exact_sum :: "double list \<Rightarrow> rat" where
  "exact_sum xs = sum_list (map val xs)"

definition magnitude_sum :: "double list \<Rightarrow> rat" where
  "magnitude_sum xs = sum_list (map (\<lambda>x. \<bar>val x\<bar>) xs)"

definition exact_mean :: "double list \<Rightarrow> rat" where
  "exact_mean xs = exact_sum xs / of_nat (length xs)"

definition mean_magnitude :: "double list \<Rightarrow> rat" where
  "mean_magnitude xs = magnitude_sum xs / of_nat (length xs)"

text \<open>All the stored lap times, session by session and lap by lap.\<close>

definition stored_laps :: "MotorsportManager \<Rightarrow> double list" where
  "stored_laps m = concat (map lapTimes (stored m))"

section \<open>Example objects and sessions\<close>

text \<open>
  \<open>MotorsportManager m;\<close> with an arbitrary choice of the indeterminate slot
  contents, and sessions as the tests build them:
  \<open>Session s{ "A", "B", Formula, {70, 71, 69} }\<close>,
  \<open>Session s{ "X", "Y", GT3, {1, 1, 1} }\<close>,
  \<open>Session s{ "Z", "Z", GT3, {0, 0, 0} }\<close>.
\<close>

definition fresh_store :: MotorsportManager where
  "fresh_store = MotorsportManager_new (\<lambda>i. 0) (\<lambda>i j. NaN)"

definition session_A :: Session where
  "session_A =
     \<lparr>driverName = ''A'', trackName = ''B'', vehicle = Formula,
      lapTimes = [Fin 70, Fin 71, Fin 69]\<rparr>"

definition session_X :: Session where
  "session_X =
     \<lparr>driverName = ''X'', trackName = ''Y'', vehicle = GT3,
      lapTimes = [Fin 1, Fin 1, Fin 1]\<rparr>"

definition session_Z :: Session where
  "session_Z =
     \<lparr>driverName = ''Z'', trackName = ''Z'', vehicle = GT3,
      lapTimes = [Fin 0, Fin 0, Fin 0]\<rparr>"

text \<open>Further sessions: one with a negative lap time, and two with lap times
  \<open>{1, 0, 0}\<close> and \<open>{4, 0, 0}\<close>.\<close>

definition session_N :: Session where
  "session_N =
     \<lparr>driverName = ''N'', trackName = ''N'', vehicle = Rally,
      lapTimes = [Fin (- 1), Fin 0, Fin 4]\<rparr>"

definition session_P :: Session where
  "session_P =
     \<lparr>driverName = ''P'', trackName = ''P'', vehicle = GT3,
      lapTimes = [Fin 1, Fin 0, Fin 0]\<rparr>"

definition session_Q :: Session where
  "session_Q =
     \<lparr>driverName = ''Q'', trackName = ''Q'', vehicle = GT3,
      lapTimes = [Fin 4, Fin 0, Fin 0]\<rparr>"

text \<open>The object after \<open>addSession(session_X)\<close> has succeeded five times.\<close>

definition full_store :: MotorsportManager where
  "full_store = \<lparr>sessions = replicate 5 session_X, sessionCount = 5\<rparr>"

text \<open>The object after \<open>addSession(session_P)\<close> and \<open>addSession(session_Q)\<close> on
  \<open>fresh_store\<close>.\<close>

definition store_P_Q :: MotorsportManager where
  "store_P_Q =
     \<lparr>sessions = [session_P, session_Q] @ drop 2 (sessions fresh_store),
      sessionCount = 2\<rparr>"

text \<open>The object after \<open>addSession(session_A)\<close> on \<open>fresh_store\<close>.\<close>

definition store_A :: MotorsportManager where
  "store_A =
     \<lparr>sessions = session_A # drop 1 (sessions fresh_store), sessionCount = 1\<rparr>"

section \<open>Rounding\<close>

lemma pow2_powi: "pow2 k = 2 powi k"
  by (simp add: pow2_def power_int_def power_one_over inverse_eq_divide)

lemma pow2_pos: "0 < pow2 k"
  by (simp add: pow2_def)

lemma pow2_add: "pow2 (i + j) = pow2 i * pow2 j"
  by (simp add: pow2_powi power_int_add)

lemma pow2_diff: "pow2 (i - j) = pow2 i / pow2 j"
  by (simp add: pow2_powi power_int_diff)

lemma pow2_less: "i < j \<Longrightarrow> pow2 i < pow2 j"
  by (simp add: pow2_powi power_int_strict_increasing)

lemma pow2_le: "i \<le> j \<Longrightarrow> pow2 i \<le> pow2 j"
  by (simp add: pow2_powi power_int_increasing)

lemma pow2_less_D: "pow2 i < pow2 j \<Longrightarrow> i < j"
  using pow2_le[of j i] by (cases "i < j") simp_all

lemma pow2_nat: "0 \<le> k \<Longrightarrow> pow2 k = of_int (2 ^ nat k)"
  by (simp add: pow2_def)

text \<open>A positive integer lies between the powers of two that its bit length gives.\<close>

lemma bitlen_pow2:
  assumes "0 < n"
  shows "pow2 (bitlen n - 1) \<le> of_int n" "of_int n < pow2 (bitlen n)"
proof -
  have b: "2 ^ nat (bitlen n - 1) \<le> n" "n < 2 ^ nat (bitlen n)"
    using bitlen_bounds[OF assms] by simp_all
  have "1 \<le> bitlen n"
    using assms bitlen_eq_zero_iff[of n] bitlen_nonneg[of n] by linarith
  then have "pow2 (bitlen n - 1) = of_int (2 ^ nat (bitlen n - 1))"
    and "pow2 (bitlen n) = of_int (2 ^ nat (bitlen n))"
    by (simp_all add: pow2_nat)
  then show "pow2 (bitlen n - 1) \<le> of_int n" "of_int n < pow2 (bitlen n)"
    using b by (simp_all only: of_int_le_iff of_int_less_iff)
qed

lemma floor_log2_bounds:
  assumes "0 < a"
  shows "pow2 (floor_log2 a) \<le> a" "a < pow2 (floor_log2 a + 1)"
proof -
  obtain p d where pd: "quotient_of a = (p, d)"
    by (cases "quotient_of a")
  then have d: "0 < d" and a: "a = of_int p / of_int d"
    using quotient_of_denom_pos quotient_of_div by blast+
  have p: "0 < p"
    using assms d a by (simp add: zero_less_divide_iff)
  define k where "k = bitlen p - bitlen d"
  note bp = bitlen_pow2[OF p] and bd = bitlen_pow2[OF d]
  have dpos: "(0::rat) < of_int d"
    using d by simp
  have "a < pow2 (bitlen p) / pow2 (bitlen d - 1)"
    unfolding a using bp(2) bd(1) p pow2_pos[of "bitlen d - 1"]
    by (intro frac_less) simp_all
  then have up: "a < pow2 (k + 1)"
    by (simp add: k_def pow2_diff[symmetric] algebra_simps)
  have "pow2 (bitlen p - 1) / pow2 (bitlen d) < a"
    unfolding a using bp(1) bd(2) dpos pow2_pos[of "bitlen p - 1"]
    by (intro frac_less2) simp_all
  then have lo: "pow2 (k - 1) < a"
    by (simp add: k_def pow2_diff[symmetric] algebra_simps)
  have fl: "floor_log2 a = (if pow2 k \<le> a then k else k - 1)"
    by (simp add: floor_log2_def pd k_def Let_def)
  show "pow2 (floor_log2 a) \<le> a"
    using lo by (simp add: fl less_imp_le)
  show "a < pow2 (floor_log2 a + 1)"
    using up by (simp add: fl not_le)
qed

lemma floor_log2_unique:
  assumes "pow2 k \<le> a" "a < pow2 (k + 1)"
  shows "floor_log2 a = k"
proof -
  have pos: "0 < a"
    using assms(1) pow2_pos[of k] by simp
  note b = floor_log2_bounds[OF pos]
  have "pow2 (floor_log2 a) < pow2 (k + 1)" "pow2 k < pow2 (floor_log2 a + 1)"
    using b assms by simp_all
  then have "floor_log2 a < k + 1" "k < floor_log2 a + 1"
    using pow2_less_D by blast+
  then show ?thesis by simp
qed

lemma round_half_even_of_int: "round_half_even (of_int n) = n"
  by (simp add: round_half_even_def)

lemma round_half_even_ge:
  assumes "of_int n \<le> s"
  shows "n \<le> round_half_even s"
proof -
  have "n \<le> \<lfloor>s\<rfloor>"
    using assms by (simp add: le_floor_iff)
  then show ?thesis
    by (auto simp add: round_half_even_def Let_def)
qed

lemma round_half_even_le:
  assumes "s \<le> of_int n"
  shows "round_half_even s \<le> n"
proof (cases "s = of_int n")
  case True
  then show ?thesis by (simp add: round_half_even_of_int)
next
  case False
  then have "s < of_int n" using assms by simp
  then have "\<lfloor>s\<rfloor> < n" by (simp add: floor_less_iff)
  then show ?thesis
    by (auto simp add: round_half_even_def Let_def)
qed

lemma pow2_52: "pow2 52 = of_int (2 ^ 52)" and pow2_53: "pow2 53 = of_int (2 ^ 53)"
  by (simp_all add: pow2_def)

text \<open>
  The shape of a rounded magnitude: a normal significand, of exactly 53 bits, or a
  subnormal one at the least exponent.
\<close>

lemma round_mag_shape:
  assumes "0 < a" "round_mag a = (m, e)"
  shows "- 1074 \<le> e \<and>
         ((2 ^ 52 \<le> m \<and> m < 2 ^ 53) \<or> (e = - 1074 \<and> 0 \<le> m \<and> m < 2 ^ 52))"
proof -
  define fl where "fl = floor_log2 a"
  define e0 where "e0 = max (fl - 52) (- 1074)"
  define s where "s = a / pow2 e0"
  define m0 where "m0 = round_half_even s"
  have rm: "round_mag a = (if m0 = 2 ^ 53 then (2 ^ 52, e0 + 1) else (m0, e0))"
    by (simp add: round_mag_def Let_def fl_def e0_def s_def m0_def)
  note b = floor_log2_bounds[OF assms(1), folded fl_def]
  have e0: "- 1074 \<le> e0" "fl - 52 \<le> e0"
    by (simp_all add: e0_def)
  have "of_int 0 \<le> s"
    using assms(1) pow2_pos[of e0] by (simp add: s_def)
  then have m_lo: "0 \<le> m0"
    unfolding m0_def by (rule round_half_even_ge)
  have "s < pow2 (fl + 1) / pow2 e0"
    using b(2) pow2_pos[of e0] by (simp add: s_def divide_strict_right_mono)
  then have s_up: "s < pow2 (fl + 1 - e0)"
    by (simp add: pow2_diff)
  also have "\<dots> \<le> pow2 53"
    using e0(2) by (intro pow2_le) simp
  finally have "s \<le> of_int (2 ^ 53)"
    by (simp only: pow2_53)
  then have m_up: "m0 \<le> 2 ^ 53"
    unfolding m0_def by (rule round_half_even_le)
  show ?thesis
  proof (cases "- 1074 \<le> fl - 52")
    case True
    then have e0eq: "e0 = fl - 52"
      by (simp add: e0_def)
    have "pow2 fl / pow2 e0 \<le> s"
      using b(1) pow2_pos[of e0] by (simp add: s_def divide_right_mono)
    then have "pow2 (fl - e0) \<le> s"
      by (simp add: pow2_diff)
    then have "of_int (2 ^ 52) \<le> s"
      by (simp add: e0eq pow2_52)
    then have "2 ^ 52 \<le> m0"
      unfolding m0_def by (rule round_half_even_ge)
    then show ?thesis
      using assms(2) rm m_up e0 by (auto split: if_splits)
  next
    case False
    then have e0eq: "e0 = - 1074" and "fl + 1 - e0 \<le> 52"
      by (simp_all add: e0_def)
    then have "s \<le> pow2 52"
      using s_up pow2_le[of "fl + 1 - e0" 52] by simp
    then have "s \<le> of_int (2 ^ 52)"
      by (simp only: pow2_52)
    then have "m0 \<le> 2 ^ 52"
      unfolding m0_def by (rule round_half_even_le)
    then show ?thesis
      using assms(2) rm m_lo e0eq by (auto split: if_splits)
  qed
qed

text \<open>A magnitude of that shape rounds to itself.\<close>

lemma round_mag_fixed:
  assumes "- 1074 \<le> e"
    "(2 ^ 52 \<le> m \<and> m < 2 ^ 53) \<or> (e = - 1074 \<and> 0 < m \<and> m < 2 ^ 52)"
  shows "round_mag (of_int m * pow2 e) = (m, e)"
proof -
  define a where "a = of_int m * pow2 e"
  have m53: "m < 2 ^ 53" and mpos: "0 < m"
    using assms(2) by auto
  then have apos: "0 < a"
    using pow2_pos[of e] by (simp add: a_def)
  have scaled: "a / pow2 e = of_int m"
    using pow2_pos[of e] by (simp add: a_def)
  have "(of_int m :: rat) < of_int (2 ^ 53)"
    using m53 by (simp only: of_int_less_iff)
  then have "a < pow2 53 * pow2 e"
    unfolding a_def pow2_53 using pow2_pos[of e] by (rule mult_strict_right_mono)
  then have up: "a < pow2 (52 + e + 1)"
    by (simp add: pow2_add[symmetric] add.commute add.left_commute)
  have ex: "max (floor_log2 a - 52) (- 1074) = e"
  proof (cases "2 ^ 52 \<le> m")
    case True
    then have "(of_int (2 ^ 52) :: rat) \<le> of_int m"
      by (simp only: of_int_le_iff)
    then have "pow2 52 * pow2 e \<le> a"
      unfolding a_def pow2_52 using pow2_pos[of e] by (intro mult_right_mono) simp_all
    then have "pow2 (52 + e) \<le> a"
      by (simp add: pow2_add)
    then have "floor_log2 a = 52 + e"
      using up by (rule floor_log2_unique)
    then show ?thesis
      using assms(1) by simp
  next
    case False
    then have e: "e = - 1074" and "m < 2 ^ 52"
      using assms(2) by auto
    then have "(of_int m :: rat) < of_int (2 ^ 52)"
      by (simp only: of_int_less_iff)
    then have "a < pow2 52 * pow2 e"
      unfolding a_def pow2_52 using pow2_pos[of e] by (rule mult_strict_right_mono)
    then have "a < pow2 (- 1022)"
      by (simp add: pow2_add[symmetric] e)
    then have "pow2 (floor_log2 a) < pow2 (- 1022)"
      using floor_log2_bounds(1)[OF apos] by simp
    then have "floor_log2 a < - 1022"
      by (rule pow2_less_D)
    then show ?thesis
      using e by simp
  qed
  show ?thesis
    using m53 by (simp add: round_mag_def Let_def a_def[symmetric] ex scaled round_half_even_of_int)
qed

text \<open>Rounding is idempotent: what \<open>round_double\<close> returns is a double.\<close>

lemma round_double_idem:
  assumes "round_double q = Fin r" "r \<noteq> 0"
  shows "round_double r = Fin r"
proof -
  obtain m e where me: "round_mag \<bar>q\<bar> = (m, e)"
    by (cases "round_mag \<bar>q\<bar>")
  have fin: "e \<le> 971" "m \<noteq> 0" and r: "r = (if q < 0 then - 1 else 1) * of_int m * pow2 e"
    using assms me
    by (auto simp add: round_double_def signed_inf_def signed_zero_def split: if_splits)
  have q: "q \<noteq> 0"
  proof
    assume "q = 0"
    then have "m = 0"
      using me by (auto simp add: round_mag_def Let_def round_half_even_def split: if_splits)
    then show False using fin(2) by simp
  qed
  then have "0 < \<bar>q\<bar>" by simp
  from round_mag_shape[OF this me] fin(2)
  have sh: "- 1074 \<le> e" "(2 ^ 52 \<le> m \<and> m < 2 ^ 53) \<or> (e = - 1074 \<and> 0 < m \<and> m < 2 ^ 52)"
    by auto
  then have mpos: "0 < m" by auto
  then have vpos: "(0::rat) < of_int m * pow2 e"
    using pow2_pos[of e] by simp
  have abs: "\<bar>r\<bar> = of_int m * pow2 e" and sgn: "r < 0 \<longleftrightarrow> q < 0"
    using vpos by (auto simp add: r)
  have "round_mag \<bar>r\<bar> = (m, e)"
    unfolding abs using sh by (rule round_mag_fixed)
  then show ?thesis
    using fin sgn by (simp add: round_double_def r)
qed

lemma is_double_round_double: "is_double (round_double q)"
  using round_double_idem[of q] by (cases "round_double q") auto

lemma is_double_zero: "is_double (Fin 0)"
  by simp

lemma is_double_fadd: "is_double x \<Longrightarrow> is_double y \<Longrightarrow> is_double (fadd x y)"
  by (cases x; cases y)
    (simp_all add: is_double_round_double is_double_zero del: is_double.simps(1))

lemma is_double_fdiv: "is_double (fdiv x y)"
  by (simp add: fdiv_def signed_inf_def signed_zero_def is_double_round_double)

lemma is_double_double_of_int: "is_double (double_of_int n)"
  by (simp add: double_of_int_def is_double_round_double)

text \<open>
  The doubles are the binary64 grid: the finite non-zero ones are the numbers
  \<open>m * 2^e\<close> with a significand \<open>m\<close> below \<open>2^53\<close> and an exponent \<open>e\<close> from
  \<open>-1074\<close> to \<open>971\<close>.
\<close>

lemma normalise_significand:
  assumes "0 < m" "m < 2 ^ 53" "- 1074 \<le> e"
  shows "\<exists>m' e'. - 1074 \<le> e' \<and> e' \<le> e \<and>
           (of_int m' * pow2 e' :: rat) = of_int m * pow2 e \<and>
           ((2 ^ 52 \<le> m' \<and> m' < 2 ^ 53) \<or> (e' = - 1074 \<and> 0 < m' \<and> m' < 2 ^ 52))"
  using assms
proof (induction "nat (e + 1074)" arbitrary: m e)
  case 0
  then have "e = - 1074" by simp
  then show ?case
    using "0.prems" by (intro exI[of _ m] exI[of _ e]) auto
next
  case (Suc n)
  show ?case
  proof (cases "2 ^ 52 \<le> m")
    case True
    then show ?thesis
      using Suc.prems by (intro exI[of _ m] exI[of _ e]) auto
  next
    case False
    have n: "n = nat (e - 1 + 1074)" and e: "- 1074 \<le> e - 1"
      using Suc.hyps(2) by simp_all
    have m2: "0 < 2 * m" "2 * m < 2 ^ 53"
      using Suc.prems(1) False by simp_all
    from Suc.hyps(1)[OF n m2 e] obtain m' e' where
      h: "- 1074 \<le> e'" "e' \<le> e - 1"
        "(of_int m' * pow2 e' :: rat) = of_int (2 * m) * pow2 (e - 1)"
        "(2 ^ 52 \<le> m' \<and> m' < 2 ^ 53) \<or> (e' = - 1074 \<and> 0 < m' \<and> m' < 2 ^ 52)"
      by blast
    have "pow2 e = 2 * pow2 (e - 1)"
      using pow2_add[of 1 "e - 1"] by (simp add: pow2_def)
    then have "(of_int (2 * m) * pow2 (e - 1) :: rat) = of_int m * pow2 e"
      by simp
    then show ?thesis
      using h by (intro exI[of _ m'] exI[of _ e']) auto
  qed
qed

lemma round_double_FinD:
  assumes "round_double q = Fin r" "r \<noteq> 0"
  shows "\<exists>m e. round_mag \<bar>q\<bar> = (m, e) \<and> e \<le> 971 \<and> m \<noteq> 0 \<and>
           r = (if q < 0 then - 1 else 1) * of_int m * pow2 e"
proof -
  obtain m e where me: "round_mag \<bar>q\<bar> = (m, e)"
    by (cases "round_mag \<bar>q\<bar>")
  have "e \<le> 971" "m \<noteq> 0" "r = (if q < 0 then - 1 else 1) * of_int m * pow2 e"
    using assms me
    by (auto simp add: round_double_def signed_inf_def signed_zero_def split: if_splits)
  then show ?thesis
    using me by blast
qed

lemma is_double_grid:
  "is_double (Fin q) \<longleftrightarrow>
     q = 0 \<or> (\<exists>m e. - 1074 \<le> e \<and> e \<le> 971 \<and> 0 < m \<and> m < 2 ^ 53 \<and>
                \<bar>q\<bar> = of_int m * pow2 e)"
proof (cases "q = 0")
  case True
  then show ?thesis by simp
next
  case q: False
  show ?thesis
  proof
    assume "is_double (Fin q)"
    then have rd: "round_double q = Fin q"
      using q by simp
    from round_double_FinD[OF rd q] obtain m e where me: "round_mag \<bar>q\<bar> = (m, e)"
      and fin: "e \<le> 971" "m \<noteq> 0"
      and v: "q = (if q < 0 then - 1 else 1) * of_int m * pow2 e"
      by blast
    from round_mag_shape[OF _ me] q fin(2)
    have sh: "- 1074 \<le> e" "0 < m" "m < 2 ^ 53"
      by auto
    then have pos: "(0::rat) < of_int m * pow2 e"
      using pow2_pos[of e] by simp
    define sg :: rat where "sg = (if q < 0 then - 1 else 1)"
    have v': "q = sg * (of_int m * pow2 e)"
      unfolding sg_def using v by (simp only: mult.assoc)
    have "\<bar>sg\<bar> = 1"
      by (simp add: sg_def)
    moreover have "\<bar>q\<bar> = \<bar>sg\<bar> * \<bar>of_int m * pow2 e\<bar>"
      by (subst v') (simp only: abs_mult)
    ultimately have "\<bar>q\<bar> = of_int m * pow2 e"
      using pos by simp
    then show "q = 0 \<or> (\<exists>m e. - 1074 \<le> e \<and> e \<le> 971 \<and> 0 < m \<and> m < 2 ^ 53 \<and>
        \<bar>q\<bar> = of_int m * pow2 e)"
      using sh fin(1) by blast
  next
    assume "q = 0 \<or> (\<exists>m e. - 1074 \<le> e \<and> e \<le> 971 \<and> 0 < m \<and> m < 2 ^ 53 \<and>
        \<bar>q\<bar> = of_int m * pow2 e)"
    then obtain m e where g: "- 1074 \<le> e" "e \<le> 971" "0 < m" "m < 2 ^ 53"
      "\<bar>q\<bar> = of_int m * pow2 e"
      using q by blast
    from normalise_significand[OF g(3,4,1)] obtain m' e' where
      n: "- 1074 \<le> e'" "e' \<le> e" "(of_int m' * pow2 e' :: rat) = of_int m * pow2 e"
        "(2 ^ 52 \<le> m' \<and> m' < 2 ^ 53) \<or> (e' = - 1074 \<and> 0 < m' \<and> m' < 2 ^ 52)"
      by blast
    have rm: "round_mag \<bar>q\<bar> = (m', e')"
      using round_mag_fixed[OF n(1,4)] by (simp add: g(5) n(3))
    have m': "m' \<noteq> 0" "e' \<le> 971"
      using n(2,4) g(2) by auto
    have "(if q < 0 then - 1 else 1) * of_int m' * pow2 e' = q"
      using g(5) n(3) by (auto simp add: abs_if split: if_splits)
    then have "round_double q = Fin q"
      using rm m' by (simp add: round_double_def)
    then show "is_double (Fin q)"
      by simp
  qed
qed

text \<open>Rounding moves a magnitude by at most half a unit of its last place.\<close>

lemma round_half_even_near: "\<bar>of_int (round_half_even s) - s\<bar> \<le> 1 / 2"
proof -
  define f where "f = \<lfloor>s\<rfloor>"
  have b: "of_int f \<le> s" "s < of_int f + 1"
    unfolding f_def by linarith+
  have "round_half_even s = f \<and> s - of_int f \<le> 1 / 2 \<or>
        round_half_even s = f + 1 \<and> 1 / 2 \<le> s - of_int f"
    by (auto simp add: round_half_even_def Let_def f_def[symmetric])
  then show ?thesis
    using b by (auto simp add: abs_if)
qed

text \<open>Some doubles and operations, evaluated: \<open>0.1\<close> is \<open>0x1.999999999999ap-4\<close>,
  \<open>0.1 + 0.2\<close> is not \<open>0.3\<close>, \<open>2^53 + 1\<close> rounds to even.\<close>

lemma known_doubles:
  "round_double (1 / 10) = Fin (3602879701896397 / 2 ^ 55)"
  "fadd (round_double (1 / 10)) (round_double (2 / 10)) = Fin (1351079888211149 / 2 ^ 52)"
  "round_double (3 / 10) = Fin (5404319552844595 / 2 ^ 54)"
  "fdiv (Fin 1) (Fin 3) = Fin (6004799503160661 / 2 ^ 54)"
  "round_double (2 ^ 53 + 1) = Fin (2 ^ 53)"
  "round_double (2 ^ 53 + 3) = Fin (2 ^ 53 + 4)"
  by code_simp+

lemma known_special_cases:
  "fdiv (Fin 1) (Fin 0) = PosInf" "fdiv (Fin (- 1)) (Fin 0) = NegInf"
  "fdiv (Fin 0) (Fin 0) = NaN" "fdiv (Fin 1) NegInf = NegZero"
  "fadd PosInf NegInf = NaN" "fadd (Fin 1) (Fin (- 1)) = Fin 0"
  "fadd (Fin 0) NegZero = Fin 0" "fadd NegZero NegZero = NegZero"
  by code_simp+

text \<open>
  \<open>round_double\<close> returns a nearest double: no double is closer to the exact result
  than the rounded one.
\<close>

lemma round_half_even_nearest:
  "\<bar>of_int (round_half_even s) - s\<bar> \<le> \<bar>of_int n - s\<bar>"
proof -
  define f where "f = \<lfloor>s\<rfloor>"
  define F N R :: rat where "F = of_int f" and "N = of_int n"
    and "R = of_int (round_half_even s)"
  have b: "F \<le> s" "s < F + 1"
    unfolding F_def f_def by linarith+
  have "round_half_even s = f \<and> s - of_int f \<le> 1 / 2 \<or>
        round_half_even s = f + 1 \<and> 1 / 2 \<le> s - of_int f"
    by (auto simp add: round_half_even_def Let_def f_def[symmetric])
  then have r: "R = F \<and> s - F \<le> 1 / 2 \<or> R = F + 1 \<and> 1 / 2 \<le> s - F"
    by (auto simp add: R_def F_def)
  have "n \<le> f \<or> f + 1 \<le> n"
    by linarith
  then have n: "N \<le> F \<or> F + 1 \<le> N"
    unfolding N_def F_def by (metis of_int_1 of_int_add of_int_le_iff)
  have "\<bar>R - s\<bar> \<le> \<bar>N - s\<bar>"
    using b r n by linarith
  then show ?thesis
    by (simp only: R_def N_def)
qed

lemma round_mag_value:
  assumes "round_mag a = (m, e)"
  shows "of_int m * pow2 e =
           of_int (round_half_even (a / pow2 (max (floor_log2 a - 52) (- 1074)))) *
           pow2 (max (floor_log2 a - 52) (- 1074))"
proof -
  have "pow2 (k + 1) = 2 * pow2 k" for k
    using pow2_add[of 1 k] by (simp add: pow2_def add.commute)
  then show ?thesis
    using assms by (auto simp add: round_mag_def Let_def split: if_splits)
qed

lemma round_mag_nearest:
  assumes "0 < a" "round_mag a = (m, e)"
    "y = 0 \<or> (\<exists>m' e'. - 1074 \<le> e' \<and> 0 < m' \<and> m' < 2 ^ 53 \<and> y = of_int m' * pow2 e')"
  shows "\<bar>of_int m * pow2 e - a\<bar> \<le> \<bar>y - a\<bar>"
proof -
  define fl where "fl = floor_log2 a"
  define e0 where "e0 = max (fl - 52) (- 1074)"
  define s where "s = a / pow2 e0"
  define m0 where "m0 = round_half_even s"
  have v: "of_int m * pow2 e = of_int m0 * pow2 e0"
    using round_mag_value[OF assms(2)] by (simp add: m0_def s_def e0_def fl_def)
  have a: "a = s * pow2 e0"
    using pow2_pos[of e0] by (simp add: s_def)
  have mult: "\<bar>of_int m0 * pow2 e0 - a\<bar> \<le> \<bar>of_int n * pow2 e0 - a\<bar>" for n
  proof -
    have "\<bar>of_int k * pow2 e0 - a\<bar> = \<bar>of_int k - s\<bar> * pow2 e0" for k
    proof -
      have "of_int k * pow2 e0 - a = (of_int k - s) * pow2 e0"
        by (simp add: a algebra_simps)
      then show ?thesis
        using pow2_pos[of e0] by (simp add: abs_mult)
    qed
    then show ?thesis
      using round_half_even_nearest[of s n] pow2_pos[of e0]
      by (simp add: m0_def mult_right_mono)
  qed
  show ?thesis
  proof (cases "y = 0")
    case True
    then show ?thesis
      using mult[of 0] by (simp add: v)
  next
    case False
    then obtain m' e' where g: "- 1074 \<le> e'" "0 < m'" "m' < 2 ^ 53" "y = of_int m' * pow2 e'"
      using assms(3) by blast
    show ?thesis
    proof (cases "e0 \<le> e'")
      case True
      then have "pow2 (e' - e0) = of_int (2 ^ nat (e' - e0))"
        by (simp add: pow2_nat)
      moreover have "pow2 e' = pow2 (e' - e0) * pow2 e0"
        by (simp add: pow2_add[symmetric])
      ultimately have "y = of_int (m' * 2 ^ nat (e' - e0)) * pow2 e0"
        by (simp add: g(4))
      then show ?thesis
        using mult[of "m' * 2 ^ nat (e' - e0)"] by (simp only: v)
    next
      case False
      then have e0: "e0 = fl - 52" and lt: "e' \<le> e0 - 1"
        using g(1) by (simp_all add: e0_def)
      have "(of_int m' :: rat) < of_int (2 ^ 53)"
        using g(3) by (simp only: of_int_less_iff)
      then have "y < pow2 53 * pow2 e'"
        unfolding g(4) pow2_53 using pow2_pos[of e'] by (rule mult_strict_right_mono)
      also have "\<dots> = pow2 (53 + e')"
        by (simp add: pow2_add)
      also have "\<dots> \<le> pow2 fl"
        using lt e0 by (intro pow2_le) simp
      finally have y: "y < pow2 fl" .
      have lo: "pow2 fl \<le> a"
        using floor_log2_bounds(1)[OF assms(1)] by (simp add: fl_def)
      have "pow2 fl = of_int (2 ^ 52) * pow2 e0"
        using pow2_add[of 52 e0] by (simp add: e0 pow2_52)
      then have "\<bar>of_int m0 * pow2 e0 - a\<bar> \<le> \<bar>pow2 fl - a\<bar>"
        using mult[of "2 ^ 52"] by simp
      also have "\<dots> \<le> \<bar>y - a\<bar>"
        using y lo by simp
      finally show ?thesis
        by (simp only: v)
    qed
  qed
qed

lemma round_double_nearest:
  assumes "round_double q = Fin r" "is_double (Fin x)"
  shows "\<bar>r - q\<bar> \<le> \<bar>x - q\<bar>"
proof (cases "q = 0")
  case True
  then have "r = 0"
    using assms(1)
    by (auto simp add: round_double_def round_mag_def round_half_even_def Let_def
        signed_zero_def signed_inf_def split: if_splits)
  then show ?thesis
    using True by simp
next
  case q: False
  obtain m e where me: "round_mag \<bar>q\<bar> = (m, e)"
    by (cases "round_mag \<bar>q\<bar>")
  define R where "R = of_int m * pow2 e"
  have r: "r = (if q < 0 then - R else R)"
    using assms(1) me
    by (auto simp add: round_double_def signed_inf_def signed_zero_def R_def split: if_splits)
  have pos: "0 < \<bar>q\<bar>"
    using q by simp
  have grid: "\<bar>x\<bar> = 0 \<or>
      (\<exists>m' e'. - 1074 \<le> e' \<and> 0 < m' \<and> m' < 2 ^ 53 \<and> \<bar>x\<bar> = of_int m' * pow2 e')"
    using assms(2) unfolding is_double_grid by auto
  have near: "\<bar>R - \<bar>q\<bar>\<bar> \<le> \<bar>\<bar>x\<bar> - \<bar>q\<bar>\<bar>"
    unfolding R_def using pos me grid by (rule round_mag_nearest)
  have "\<bar>r - q\<bar> = \<bar>R - \<bar>q\<bar>\<bar>"
    by (auto simp add: r abs_if)
  moreover have "\<bar>\<bar>x\<bar> - \<bar>q\<bar>\<bar> \<le> \<bar>x - q\<bar>"
    by (rule abs_triangle_ineq3)
  ultimately show ?thesis
    using near by simp
qed

lemma round_half_even_tie: "s - of_int \<lfloor>s\<rfloor> = 1 / 2 \<Longrightarrow> even (round_half_even s)"
  by (simp add: round_half_even_def Let_def)

text \<open>
  An integer below \<open>2^53\<close> in magnitude is a double, so the conversion of such an
  \<open>int\<close> is exact and an integer literal such as \<open>3.0\<close> or \<open>95.0\<close> denotes the
  double of that value.
\<close>

lemma is_double_of_int:
  assumes "\<bar>n\<bar> < 2 ^ 53"
  shows "is_double (Fin (of_int n))"
proof (cases "n = 0")
  case True
  then show ?thesis by simp
next
  case False
  have "\<bar>of_int n :: rat\<bar> = of_int \<bar>n\<bar> * pow2 0"
    by (simp add: pow2_def)
  moreover have "0 < \<bar>n\<bar>"
    using False by simp
  ultimately have "\<exists>m e. - 1074 \<le> e \<and> e \<le> 971 \<and> 0 < m \<and> m < 2 ^ 53 \<and>
      \<bar>of_int n :: rat\<bar> = of_int m * pow2 e"
    using assms by (intro exI[of _ "\<bar>n\<bar>"] exI[of _ 0]) simp
  then show ?thesis
    unfolding is_double_grid by blast
qed

lemma double_of_int_exact:
  assumes "\<bar>n\<bar> < 2 ^ 53"
  shows "double_of_int n = Fin (of_int n)"
  using is_double_of_int[OF assms] by (auto simp add: double_of_int_def)

section \<open>Arrays and the store\<close>

lemma array_write_in:
  "0 \<le> i \<Longrightarrow> i < int (length xs) \<Longrightarrow> array_write xs i x = Inr (xs[nat i := x])"
  by (simp add: array_write_def)

lemma array_read_in:
  "0 \<le> i \<Longrightarrow> i < int (length xs) \<Longrightarrow> array_read xs i = Inr (xs ! nat i)"
  by (simp add: array_read_def)

lemma store_inv_new: "store_inv (MotorsportManager_new v t)"
  by (simp add: store_inv_def MotorsportManager_new_def MAX_SESSIONS_def)

lemma stored_new: "stored (MotorsportManager_new v t) = []"
  by (simp add: stored_def MotorsportManager_new_def)

lemma length_stored: "store_inv m \<Longrightarrow> length (stored m) = nat (sessionCount m)"
  by (auto simp add: stored_def store_inv_def MAX_SESSIONS_def min_def)

lemma addSession_full: "sessionCount m = 5 \<Longrightarrow> addSession m s = Inr (False, m)"
  by (simp add: addSession_def MAX_SESSIONS_def)

lemma addSession_room:
  assumes "store_inv m" "sessionCount m < 5"
  shows "addSession m s =
           Inr (True, m\<lparr>sessions := (sessions m)[nat (sessionCount m) := s],
                        sessionCount := sessionCount m + 1\<rparr>)"
  using assms by (simp add: addSession_def store_inv_def MAX_SESSIONS_def array_write_def)

lemma stored_after_add:
  assumes "store_inv m" "sessionCount m < 5"
  shows "stored (m\<lparr>sessions := (sessions m)[nat (sessionCount m) := s],
                   sessionCount := sessionCount m + 1\<rparr>) = stored m @ [s]"
proof -
  let ?n = "nat (sessionCount m)"
  have n: "?n < length (sessions m)"
    using assms by (simp add: store_inv_def MAX_SESSIONS_def)
  have "nat (sessionCount m + 1) = Suc ?n"
    using assms by (simp add: store_inv_def nat_add_distrib)
  then have "stored (m\<lparr>sessions := (sessions m)[?n := s], sessionCount := sessionCount m + 1\<rparr>)
      = take (Suc ?n) ((sessions m)[?n := s])"
    by (simp add: stored_def)
  also have "\<dots> = take ?n ((sessions m)[?n := s]) @ [(sessions m)[?n := s] ! ?n]"
    using n by (simp add: take_Suc_conv_app_nth)
  also have "\<dots> = stored m @ [s]"
    using n by (simp add: stored_def)
  finally show ?thesis .
qed

lemma store_inv_after_add:
  assumes "store_inv m" "sessionCount m < 5"
  shows "store_inv (m\<lparr>sessions := (sessions m)[nat (sessionCount m) := s],
                      sessionCount := sessionCount m + 1\<rparr>)"
  using assms by (simp add: store_inv_def MAX_SESSIONS_def)

text \<open>The two outcomes of \<open>addSession\<close> on an object that satisfies the class invariant.\<close>

lemma addSession_cases:
  assumes "store_inv m"
  obtains (full) "sessionCount m = 5" "addSession m s = Inr (False, m)"
  | (room) m' where "sessionCount m < 5" "addSession m s = Inr (True, m')"
      "sessions m' = (sessions m)[nat (sessionCount m) := s]"
      "store_inv m'" "sessionCount m' = sessionCount m + 1" "stored m' = stored m @ [s]"
proof (cases "sessionCount m = 5")
  case True
  then show ?thesis using full addSession_full by blast
next
  case False
  then have lt: "sessionCount m < 5"
    using assms by (simp add: store_inv_def MAX_SESSIONS_def)
  show ?thesis
    using room[OF lt addSession_room[OF assms lt] _ store_inv_after_add[OF assms lt] _
        stored_after_add[OF assms lt]]
    by simp
qed

text \<open>A run of \<open>addSession\<close> calls: the call number \<open>k\<close> succeeds while fewer
  than five sessions are stored.\<close>

lemma addSessions_run:
  assumes "store_inv m"
  shows "\<exists>m'. addSessions m ss =
             Inr (map (\<lambda>k. sessionCount m + int k < 5) [0..<length ss], m') \<and>
           store_inv m' \<and>
           sessionCount m' = min 5 (sessionCount m + int (length ss)) \<and>
           stored m' = take 5 (stored m @ ss)"
  using assms
proof (induction ss arbitrary: m)
  case Nil
  then have "length (stored m) \<le> 5" "0 \<le> sessionCount m" "sessionCount m \<le> 5"
    by (auto simp add: length_stored store_inv_def MAX_SESSIONS_def)
  with Nil show ?case
    by simp
next
  case (Cons s ss)
  from Cons.prems show ?case
  proof (cases rule: addSession_cases[where s = s])
    case full
    from Cons.IH[OF Cons.prems] obtain m' where
      m': "addSessions m ss = Inr (map (\<lambda>k. sessionCount m + int k < 5) [0..<length ss], m')"
        "store_inv m'" "sessionCount m' = min 5 (sessionCount m + int (length ss))"
        "stored m' = take 5 (stored m @ ss)"
      by blast
    have len: "length (stored m) = 5"
      using full Cons.prems by (simp add: length_stored)
    have shift: "map (\<lambda>k. sessionCount m + int k < 5) [0..<length (s # ss)] =
        False # map (\<lambda>k. sessionCount m + int k < 5) [0..<length ss]"
      using full by (simp add: map_upt_Suc del: upt_Suc)
    have res: "addSessions m (s # ss) =
        Inr (False # map (\<lambda>k. sessionCount m + int k < 5) [0..<length ss], m')"
      using full(2) m'(1) by simp
    show ?thesis
    proof (intro exI conjI)
      show "addSessions m (s # ss) =
          Inr (map (\<lambda>k. sessionCount m + int k < 5) [0..<length (s # ss)], m')"
        unfolding shift by (rule res)
      show "store_inv m'" by fact
      show "sessionCount m' = min 5 (sessionCount m + int (length (s # ss)))"
        using m'(3) full(1) by simp
      show "stored m' = take 5 (stored m @ s # ss)"
        using m'(4) len by simp
    qed
  next
    case (room m1)
    from Cons.IH[OF room(4)] obtain m' where
      m': "addSessions m1 ss = Inr (map (\<lambda>k. sessionCount m1 + int k < 5) [0..<length ss], m')"
        "store_inv m'" "sessionCount m' = min 5 (sessionCount m1 + int (length ss))"
        "stored m' = take 5 (stored m1 @ ss)"
      by blast
    have shift: "map (\<lambda>k. sessionCount m + int k < 5) [0..<length (s # ss)] =
        True # map (\<lambda>k. sessionCount m1 + int k < 5) [0..<length ss]"
      using room(1,5) by (simp add: map_upt_Suc add.assoc del: upt_Suc)
    have res: "addSessions m (s # ss) =
        Inr (True # map (\<lambda>k. sessionCount m1 + int k < 5) [0..<length ss], m')"
      using room(2) m'(1) by simp
    show ?thesis
    proof (intro exI conjI)
      show "addSessions m (s # ss) =
          Inr (map (\<lambda>k. sessionCount m + int k < 5) [0..<length (s # ss)], m')"
        unfolding shift by (rule res)
      show "store_inv m'" by fact
      show "sessionCount m' = min 5 (sessionCount m + int (length (s # ss)))"
        using m'(3) room(5) by simp
      show "stored m' = take 5 (stored m @ s # ss)"
        using m'(4) room(6) by simp
    qed
  qed
qed


lemma sessionCount_new: "sessionCount (MotorsportManager_new v t) = 0"
  by (simp add: MotorsportManager_new_def)

section \<open>The loops\<close>

declare calculateAverageLap_loop.simps [simp del]
declare calculateOverallAverage_inner.simps [simp del]
declare calculateOverallAverage_outer.simps [simp del]

lemma calculateAverageLap_loop_foldl:
  assumes "length (lapTimes s) = 3" "0 \<le> i" "i \<le> 3"
  shows "calculateAverageLap_loop s i tot = Inr (foldl fadd tot (drop (nat i) (lapTimes s)))"
  using assms
proof (induction s i tot rule: calculateAverageLap_loop.induct)
  case (1 s i tot)
  show ?case
  proof (cases "i < 3")
    case True
    then have rd: "array_read (lapTimes s) i = Inr (lapTimes s ! nat i)"
      using "1.prems" by (simp add: array_read_in)
    have dr: "drop (nat i) (lapTimes s) = lapTimes s ! nat i # drop (nat (i + 1)) (lapTimes s)"
      using True "1.prems" by (simp add: Cons_nth_drop_Suc nat_add_distrib)
    have "calculateAverageLap_loop s (i + 1) (fadd tot (lapTimes s ! nat i)) =
        Inr (foldl fadd (fadd tot (lapTimes s ! nat i)) (drop (nat (i + 1)) (lapTimes s)))"
      using "1.IH"[OF True rd] True "1.prems" by simp
    then show ?thesis
      using True rd dr by (subst calculateAverageLap_loop.simps) simp
  next
    case False
    then have "i = 3" using "1.prems" by simp
    then show ?thesis
      using "1.prems" by (subst calculateAverageLap_loop.simps) simp
  qed
qed

lemma calculateAverageLap_value:
  assumes "length (lapTimes s) = 3"
  shows "calculateAverageLap m s = Inr (fdiv (sum_in_order (lapTimes s)) (Fin 3))"
  using calculateAverageLap_loop_foldl[OF assms, of 0 "Fin 0"]
  by (simp add: calculateAverageLap_def sum_in_order_def)

lemma calculateOverallAverage_inner_foldl:
  assumes "array_read (sessions m) i = Inr s" "length (lapTimes s) = 3" "0 \<le> j" "j \<le> 3"
  shows "calculateOverallAverage_inner m i j (tot, lapCount) =
           Inr (foldl fadd tot (drop (nat j) (lapTimes s)), lapCount + (3 - j))"
  using assms
proof (induction m i j "(tot, lapCount)" arbitrary: tot lapCount
    rule: calculateOverallAverage_inner.induct)
  case (1 m i j tot lapCount)
  show ?case
  proof (cases "j < 3")
    case True
    then have rd: "array_read (lapTimes s) j = Inr (lapTimes s ! nat j)"
      using "1.prems" by (simp add: array_read_in)
    have dr: "drop (nat j) (lapTimes s) = lapTimes s ! nat j # drop (nat (j + 1)) (lapTimes s)"
      using True "1.prems" by (simp add: Cons_nth_drop_Suc nat_add_distrib)
    have "calculateOverallAverage_inner m i (j + 1) (fadd tot (lapTimes s ! nat j), lapCount + 1) =
        Inr (foldl fadd (fadd tot (lapTimes s ! nat j)) (drop (nat (j + 1)) (lapTimes s)),
             lapCount + 1 + (3 - (j + 1)))"
      using "1.hyps"[OF True "1.prems"(1) rd] True "1.prems" by simp
    then show ?thesis
      using True rd dr "1.prems"(1) by (subst calculateOverallAverage_inner.simps) simp
  next
    case False
    then have "j = 3" using "1.prems" by simp
    then show ?thesis
      using "1.prems" by (subst calculateOverallAverage_inner.simps) simp
  qed
qed


lemma stored_nth:
  assumes "store_inv m" "0 \<le> i" "i < sessionCount m"
  shows "array_read (sessions m) i = Inr (stored m ! nat i)"
    and "drop (nat i) (stored m) = stored m ! nat i # drop (nat (i + 1)) (stored m)"
    and "stored m ! nat i \<in> set (stored m)"
proof -
  have lt: "nat i < length (stored m)"
    using assms by (simp add: length_stored)
  have "i < int (length (sessions m))"
    using assms by (simp add: store_inv_def)
  then show "array_read (sessions m) i = Inr (stored m ! nat i)"
    using assms(2,3) by (simp add: array_read_in stored_def)
  show "drop (nat i) (stored m) = stored m ! nat i # drop (nat (i + 1)) (stored m)"
    using lt assms(2) by (simp add: Cons_nth_drop_Suc nat_add_distrib)
  show "stored m ! nat i \<in> set (stored m)"
    using lt by simp
qed

lemma calculateOverallAverage_outer_foldl:
  assumes "store_inv m" "\<forall>s \<in> set (stored m). length (lapTimes s) = 3"
    "0 \<le> i" "i \<le> sessionCount m"
  shows "calculateOverallAverage_outer m i (tot, lapCount) =
           Inr (foldl fadd tot (concat (map lapTimes (drop (nat i) (stored m)))),
                lapCount + 3 * (sessionCount m - i))"
  using assms
proof (induction m i "(tot, lapCount)" arbitrary: tot lapCount
    rule: calculateOverallAverage_outer.induct)
  case (1 m i tot lapCount)
  show ?case
  proof (cases "i < sessionCount m")
    case True
    let ?s = "stored m ! nat i"
    note nth = stored_nth[OF "1.prems"(1,3) True]
    have len: "length (lapTimes ?s) = 3"
      using "1.prems"(2) nth(3) by blast
    have inner: "calculateOverallAverage_inner m i 0 (tot, lapCount) =
        Inr (foldl fadd tot (lapTimes ?s), lapCount + 3)"
      using calculateOverallAverage_inner_foldl[OF nth(1) len, of 0 tot lapCount] by simp
    have "calculateOverallAverage_outer m (i + 1) (foldl fadd tot (lapTimes ?s), lapCount + 3) =
        Inr (foldl fadd (foldl fadd tot (lapTimes ?s))
               (concat (map lapTimes (drop (nat (i + 1)) (stored m)))),
             lapCount + 3 + 3 * (sessionCount m - (i + 1)))"
      using "1.hyps"[OF True inner "1.prems"(1,2)] True "1.prems"(3) by simp
    then show ?thesis
      using True inner nth(2)
      by (subst calculateOverallAverage_outer.simps) simp
  next
    case False
    then have "i = sessionCount m" using "1.prems" by simp
    then show ?thesis
      using "1.prems"(1) by (subst calculateOverallAverage_outer.simps) (simp add: length_stored)
  qed
qed

lemma wf_store_laps:
  "wf_store m \<Longrightarrow> \<forall>s \<in> set (stored m). length (lapTimes s) = 3"
  by (simp add: wf_store_def list_all_iff wf_Session_def)

lemma calculateOverallAverage_value:
  assumes "wf_store m" "sessionCount m \<noteq> 0"
  shows "calculateOverallAverage m =
           Inr (fdiv (sum_in_order (concat (map lapTimes (stored m))))
                     (double_of_int (3 * sessionCount m)))"
proof -
  have inv: "store_inv m" using assms(1) by (simp add: wf_store_def)
  then have "0 \<le> sessionCount m" by (simp add: store_inv_def)
  from calculateOverallAverage_outer_foldl[OF inv wf_store_laps[OF assms(1)] order_refl this,
      of "Fin 0" 0]
  show ?thesis
    using assms(2) by (simp add: calculateOverallAverage_def sum_in_order_def)
qed

lemma fadd_zero_left: "is_double a \<Longrightarrow> a \<noteq> NegZero \<Longrightarrow> fadd (Fin 0) a = a"
  by (cases a) auto

lemma fadd_NegZero_left: "fadd NegZero b = b"
  by (cases b) auto

lemma fdiv_zero_three: "fdiv (Fin 0) (Fin 3) = Fin 0" "fdiv NegZero (Fin 3) = NegZero"
  by (simp_all add: fdiv_def signed_zero_def)

lemma sum_three:
  assumes "is_double a" "is_double b" "is_double c"
  shows "sum_in_order [a, b, c] =
           (if a = NegZero \<and> b = NegZero \<and> c = NegZero then Fin 0 else fadd (fadd a b) c)"
proof (cases "a = NegZero")
  case False
  then show ?thesis
    using assms by (simp add: sum_in_order_def fadd_zero_left)
next
  case a: True
  show ?thesis
  proof (cases "b = NegZero")
    case False
    then show ?thesis
      using assms a by (simp add: sum_in_order_def fadd_zero_left fadd_NegZero_left)
  next
    case b: True
    show ?thesis
    proof (cases "c = NegZero")
      case False
      then show ?thesis
        using assms a b by (simp add: sum_in_order_def fadd_zero_left fadd_NegZero_left)
    next
      case True
      then show ?thesis
        using a b by (simp add: sum_in_order_def)
    qed
  qed
qed


lemma length_concat_laps:
  "\<forall>s \<in> set xs. length (lapTimes s) = 3 \<Longrightarrow>
   length (concat (map lapTimes xs)) = 3 * length xs"
  by (induction xs) simp_all

section \<open>The class invariant\<close>

lemma exec_effect:
  assumes "store_inv m" "exec c m = Inr (r, m')"
  shows "store_inv m' \<and>
         (m' = m \<or> (\<exists>s. c = AddSession s \<and> r = RBool True \<and> sessionCount m < 5 \<and>
                      sessionCount m' = sessionCount m + 1 \<and> stored m' = stored m @ [s]))"
proof (cases c)
  case (AddSession s)
  from assms(1) show ?thesis
  proof (cases rule: addSession_cases[where s = s])
    case full
    then show ?thesis using assms AddSession by auto
  next
    case (room m1)
    then show ?thesis using assms AddSession by auto
  qed
qed (use assms in \<open>auto split: sum.splits\<close>)

lemma exec_wf:
  assumes "wf_store m" "wf_call c" "exec c m = Inr (r, m')"
  shows "wf_store m'"
proof -
  have inv: "store_inv m" using assms(1) by (simp add: wf_store_def)
  from exec_effect[OF inv assms(3)] assms(1,2) show ?thesis
    by (auto simp add: wf_store_def)
qed

lemma reachable_wf: "reachable m \<Longrightarrow> wf_store m"
proof (induction rule: reachable.induct)
  case (fresh v t)
  show ?case by (simp add: wf_store_def store_inv_new stored_new)
next
  case (step m c r m')
  then show ?case using exec_wf by blast
qed

text \<open>No call on a reachable object runs into undefined behaviour.\<close>

lemma exec_no_fault:
  assumes "wf_store m" "wf_call c"
  shows "\<exists>r m'. exec c m = Inr (r, m')"
proof (cases c)
  case (AddSession s)
  have "store_inv m" using assms(1) by (simp add: wf_store_def)
  then show ?thesis
    by (cases rule: addSession_cases[where s = s]) (simp_all add: AddSession)
next
  case (CalculateAverageLap s)
  then have "length (lapTimes s) = 3" using assms(2) by (simp add: wf_Session_def)
  then show ?thesis by (simp add: CalculateAverageLap calculateAverageLap_value)
next
  case CalculateOverallAverage
  show ?thesis
  proof (cases "sessionCount m = 0")
    case True
    then show ?thesis by (simp add: CalculateOverallAverage calculateOverallAverage_def)
  next
    case False
    then show ?thesis
      by (simp add: CalculateOverallAverage calculateOverallAverage_value[OF assms(1)])
  qed
qed simp_all

text \<open>A run of \<open>addSession\<close> calls leads from a reachable state to a reachable state.\<close>

lemma addSessions_reachable:
  assumes "reachable m" "list_all wf_Session ss" "addSessions m ss = Inr (bs, m')"
  shows "reachable m'"
  using assms
proof (induction ss arbitrary: m bs)
  case Nil
  then show ?case by simp
next
  case (Cons s ss)
  from Cons.prems(3) obtain b m1 bs1 where
    one: "addSession m s = Inr (b, m1)" and rest: "addSessions m1 ss = Inr (bs1, m')"
    by (auto split: sum.splits prod.splits)
  have "exec (AddSession s) m = Inr (RBool b, m1)"
    using one by simp
  moreover have "wf_call (AddSession s)"
    using Cons.prems(2) by simp
  ultimately have "reachable m1"
    using Cons.prems(1) reachable.step by blast
  then show ?case
    using Cons.IH rest Cons.prems(2) by simp
qed

section \<open>One session\<close>

lemma fdiv_one: "is_double r \<Longrightarrow> fdiv r (Fin 1) = r"
  by (cases r) (auto simp add: fdiv_def signed_inf_def signed_zero_def)

lemma double_of_int_1: "double_of_int 1 = Fin 1" and double_of_int_3: "double_of_int 3 = Fin 3"
  by code_simp+

lemma mean_of_one:
  assumes "is_double r"
  shows "same_number (fdiv (sum_in_order [r]) (double_of_int 1)) r"
proof (cases "r = NegZero")
  case True
  then show ?thesis
    by (simp add: sum_in_order_def double_of_int_1 fdiv_def signed_zero_def same_number_def)
next
  case False
  then have "sum_in_order [r] = r"
    using assms by (simp add: sum_in_order_def fadd_zero_left)
  then show ?thesis
    using assms by (simp add: double_of_int_1 fdiv_one same_number_def)
qed

section \<open>Rounding errors\<close>

lemma unit_roundoff_pow2: "unit_roundoff = pow2 (- 53)"
  by (simp add: unit_roundoff_def pow2_def)

lemma round_double_error:
  assumes "q \<noteq> 0" "\<bar>q\<bar> < pow2 1023"
  shows "is_finite (round_double q) \<and>
         \<bar>val (round_double q) - q\<bar> \<le> unit_roundoff * \<bar>q\<bar> + underflow_unit \<and>
         ((\<exists>M. q = of_int M * pow2 (- 1074)) \<longrightarrow>
            \<bar>val (round_double q) - q\<bar> \<le> unit_roundoff * \<bar>q\<bar>)"
proof -
  define a where "a = \<bar>q\<bar>"
  define fl where "fl = floor_log2 a"
  define e0 where "e0 = max (fl - 52) (- 1074)"
  define s where "s = a / pow2 e0"
  define m0 where "m0 = round_half_even s"
  define R where "R = of_int m0 * pow2 e0"
  define sg :: rat where "sg = (if q < 0 then - 1 else 1)"
  have apos: "0 < a"
    using assms(1) by (simp add: a_def)
  have q: "q = sg * a"
    by (simp add: sg_def a_def)
  have sg: "\<bar>sg\<bar> = 1"
    by (simp add: sg_def)
  obtain m e where me: "round_mag a = (m, e)"
    by (cases "round_mag a")
  have v: "of_int m * pow2 e = R"
    using round_mag_value[OF me] by (simp add: R_def m0_def s_def e0_def fl_def)
  have e: "e \<le> e0 + 1"
    using me by (auto simp add: round_mag_def Let_def e0_def fl_def split: if_splits)
  have "pow2 fl < pow2 1023"
    using floor_log2_bounds(1)[OF apos] assms(2) by (simp add: fl_def a_def)
  then have fl: "fl < 1023"
    by (rule pow2_less_D)
  then have "e \<le> 971"
    using e by (simp add: e0_def)
  then have rd: "round_double q =
      (if m = 0 then signed_zero (q < 0) else Fin (sg * of_int m * pow2 e))"
    using me by (simp add: round_double_def a_def sg_def)
  have fin: "is_finite (round_double q)"
    by (simp add: rd signed_zero_def)
  have "val (round_double q) = sg * (of_int m * pow2 e)"
    by (simp add: rd signed_zero_def)
  then have "val (round_double q) - q = sg * (R - a)"
    by (simp add: v q algebra_simps)
  then have err: "\<bar>val (round_double q) - q\<bar> = \<bar>R - a\<bar>"
    by (simp add: abs_mult sg)
  have a: "a = s * pow2 e0"
    using pow2_pos[of e0] by (simp add: s_def)
  have "R - a = (of_int m0 - s) * pow2 e0"
    by (simp add: R_def a algebra_simps)
  then have Ra: "\<bar>R - a\<bar> = \<bar>of_int m0 - s\<bar> * pow2 e0"
    using pow2_pos[of e0] by (simp add: abs_mult)
  have half: "\<bar>R - a\<bar> \<le> 1 / 2 * pow2 e0"
    unfolding Ra m0_def using round_half_even_near[of s] pow2_pos[of e0]
    by (intro mult_right_mono) simp_all
  have halfpow: "1 / 2 * pow2 k = pow2 (k - 1)" for k
    using pow2_add[of "k - 1" 1] by (simp add: pow2_def)
  show ?thesis
  proof (cases "- 1074 \<le> fl - 52")
    case True
    then have "e0 - 1 = - 53 + fl"
      by (simp add: e0_def)
    then have "pow2 (e0 - 1) = pow2 (- 53) * pow2 fl"
      by (simp only: pow2_add)
    then have "1 / 2 * pow2 e0 = pow2 (- 53) * pow2 fl"
      by (simp only: halfpow)
    also have "\<dots> \<le> pow2 (- 53) * a"
      using floor_log2_bounds(1)[OF apos] pow2_pos[of "- 53"]
      by (intro mult_left_mono) (simp_all add: fl_def)
    finally have "\<bar>R - a\<bar> \<le> unit_roundoff * \<bar>q\<bar>"
      using half by (simp add: unit_roundoff_pow2 a_def)
    moreover have "0 \<le> underflow_unit"
      using pow2_pos[of "- 1075"] by (simp add: underflow_unit_def)
    ultimately show ?thesis
      using fin err by simp
  next
    case False
    then have e0: "e0 = - 1074"
      by (simp add: e0_def)
    then have "e0 - 1 = - 1075"
      by simp
    then have "1 / 2 * pow2 e0 = underflow_unit"
      by (simp only: halfpow underflow_unit_def)
    then have 1: "\<bar>R - a\<bar> \<le> underflow_unit"
      using half by simp
    have u0: "0 \<le> unit_roundoff * \<bar>q\<bar>"
      by (simp add: unit_roundoff_def)
    have 2: "\<bar>R - a\<bar> = 0" if "q = of_int M * pow2 (- 1074)" for M
    proof -
      have "a = of_int \<bar>M\<bar> * pow2 (- 1074)"
        using that pow2_pos[of "- 1074"] by (simp add: a_def abs_mult)
      then have s: "s = of_int \<bar>M\<bar>"
        using pow2_pos[of "- 1074"] by (simp add: s_def e0)
      have "m0 = \<bar>M\<bar>"
        unfolding m0_def s by (rule round_half_even_of_int)
      then have "of_int m0 - s = 0"
        by (simp only: s diff_self)
      then show ?thesis
        by (simp only: Ra abs_zero mult_zero_left)
    qed
    show ?thesis
    proof (intro conjI impI)
      show "is_finite (round_double q)"
        by (rule fin)
      show "\<bar>val (round_double q) - q\<bar> \<le> unit_roundoff * \<bar>q\<bar> + underflow_unit"
        using err 1 u0 by linarith
      assume "\<exists>M. q = of_int M * pow2 (- 1074)"
      then obtain M where "q = of_int M * pow2 (- 1074)" ..
      from 2[OF this] show "\<bar>val (round_double q) - q\<bar> \<le> unit_roundoff * \<bar>q\<bar>"
        using err u0 by linarith
    qed
  qed
qed

lemma unit_roundoff_nonneg: "0 \<le> unit_roundoff"
  by (simp add: unit_roundoff_def)

lemma underflow_unit_nonneg: "0 \<le> underflow_unit"
  using pow2_pos[of "- 1075"] by (simp add: underflow_unit_def)

text \<open>Every finite double is a multiple of the least subnormal number.\<close>

lemma is_double_multiple:
  assumes "is_double x" "is_finite x"
  shows "\<exists>M. val x = of_int M * pow2 (- 1074)"
proof (cases x)
  case (Fin q)
  show ?thesis
  proof (cases "q = 0")
    case True
    then show ?thesis
      using Fin by (intro exI[of _ 0]) simp
  next
    case False
    have "is_double (Fin q)"
      using assms(1) Fin by simp
    then obtain m e where g: "- 1074 \<le> e" "\<bar>q\<bar> = of_int m * pow2 e"
      using False unfolding is_double_grid by blast
    have "pow2 e = pow2 (e + 1074) * pow2 (- 1074)"
      by (simp add: pow2_add[symmetric])
    also have "pow2 (e + 1074) = of_int (2 ^ nat (e + 1074))"
      using g(1) by (simp add: pow2_nat)
    finally have abs: "\<bar>q\<bar> = of_int (m * 2 ^ nat (e + 1074)) * pow2 (- 1074)"
      by (simp add: g(2))
    show ?thesis
    proof (cases "q < 0")
      case True
      then have "q = - \<bar>q\<bar>" by simp
      then have "q = of_int (- (m * 2 ^ nat (e + 1074))) * pow2 (- 1074)"
        by (simp only: abs of_int_minus mult_minus_left)
      then show ?thesis
        unfolding Fin val.simps by (rule exI)
    next
      case False
      then have "q = \<bar>q\<bar>" by simp
      then have "q = of_int (m * 2 ^ nat (e + 1074)) * pow2 (- 1074)"
        by (simp only: abs)
      then show ?thesis
        unfolding Fin val.simps by (rule exI)
    qed
  qed
next
  case NegZero
  then show ?thesis
    by (intro exI[of _ 0]) simp
qed (use assms(2) in simp_all)

text \<open>An addition of finite doubles that stays in range has a relative error of at most
  the unit roundoff; a division has in addition the absolute error of an underflow.\<close>

lemma fadd_error:
  assumes "is_finite x" "is_finite y" "is_double x" "is_double y"
    "\<bar>val x + val y\<bar> < pow2 1023"
  shows "is_finite (fadd x y) \<and>
         \<bar>val (fadd x y) - (val x + val y)\<bar> \<le> unit_roundoff * \<bar>val x + val y\<bar>"
proof (cases "\<exists>p q. x = Fin p \<and> y = Fin q \<and> p + q \<noteq> 0")
  case True
  then obtain p q where xy: "x = Fin p" "y = Fin q" and nz: "p + q \<noteq> 0"
    by blast
  obtain M N where "p = of_int M * pow2 (- 1074)" "q = of_int N * pow2 (- 1074)"
    using is_double_multiple[OF assms(3,1)] is_double_multiple[OF assms(4,2)] xy by auto
  then have "p + q = of_int (M + N) * pow2 (- 1074)"
    by (simp add: algebra_simps)
  then have "\<exists>K. p + q = of_int K * pow2 (- 1074)"
    by blast
  moreover have "\<bar>p + q\<bar> < pow2 1023"
    using assms(5) xy by simp
  ultimately show ?thesis
    using round_double_error[OF nz] nz xy by simp
next
  case False
  then show ?thesis
    using assms(1,2) unit_roundoff_nonneg by (cases x; cases y) auto
qed

lemma fdiv_error:
  assumes "is_finite x" "d \<noteq> 0" "\<bar>val x / d\<bar> < pow2 1023"
  shows "is_finite (fdiv x (Fin d)) \<and>
         \<bar>val (fdiv x (Fin d)) - val x / d\<bar> \<le>
           unit_roundoff * \<bar>val x / d\<bar> + underflow_unit"
proof (cases "is_zero x")
  case True
  then have "fdiv x (Fin d) = signed_zero (sign_bit x \<noteq> (d < 0))" "val x = 0"
    using assms(1,2) by (cases x; simp add: fdiv_def)+
  then show ?thesis
    using underflow_unit_nonneg by (simp add: signed_zero_def)
next
  case False
  then obtain p where x: "x = Fin p" and p: "p \<noteq> 0"
    using assms(1) by (cases x) auto
  have "fdiv x (Fin d) = round_double (p / d)"
    using p assms(2) by (simp add: x fdiv_def)
  moreover have "p / d \<noteq> 0"
    using p assms(2) by simp
  ultimately show ?thesis
    using round_double_error[of "p / d"] assms(3) by (simp add: x)
qed

lemma magnitude_sum_nonneg: "0 \<le> magnitude_sum xs"
  by (induction xs) (simp_all add: magnitude_sum_def)

lemma exact_sum_le_magnitude_sum: "\<bar>exact_sum xs\<bar> \<le> magnitude_sum xs"
  by (induction xs) (auto simp add: exact_sum_def magnitude_sum_def)

lemma exact_sum_Cons: "exact_sum (x # xs) = val x + exact_sum xs"
  and magnitude_sum_Cons: "magnitude_sum (x # xs) = \<bar>val x\<bar> + magnitude_sum xs"
  by (simp_all add: exact_sum_def magnitude_sum_def)

text \<open>
  The error of a sum accumulated in order: after \<open>n\<close> additions it is at most
  \<open>(1 + u)^n - 1\<close> times the sum of the magnitudes.
\<close>

lemma foldl_fadd_error:
  assumes "\<forall>x \<in> set xs. is_finite x \<and> is_double x" "is_finite s" "is_double s"
    "(1 + unit_roundoff) ^ length xs * (\<bar>val s\<bar> + magnitude_sum xs) < pow2 1023"
  shows "is_finite (foldl fadd s xs) \<and> is_double (foldl fadd s xs) \<and>
         \<bar>val (foldl fadd s xs) - (val s + exact_sum xs)\<bar> \<le>
           ((1 + unit_roundoff) ^ length xs - 1) * (\<bar>val s\<bar> + magnitude_sum xs)"
  using assms
proof (induction xs arbitrary: s)
  case Nil
  then show ?case
    by (simp add: exact_sum_def magnitude_sum_def)
next
  case (Cons x xs)
  define u where "u = unit_roundoff"
  define U where "U = 1 + u"
  define P where "P = U ^ length xs"
  define Ms where "Ms = magnitude_sum xs"
  define T where "T = \<bar>val s\<bar> + \<bar>val x\<bar> + Ms"
  define s1 where "s1 = fadd s x"
  have u: "0 \<le> u" and U: "1 \<le> U" and P: "1 \<le> P" and Ms: "0 \<le> Ms"
    using unit_roundoff_nonneg magnitude_sum_nonneg
    by (simp_all add: u_def U_def P_def Ms_def)
  have T: "0 \<le> T"
    using Ms by (simp add: T_def)
  have x: "is_finite x" "is_double x"
    using Cons.prems(1) by simp_all
  have big: "P * U * T < pow2 1023"
    using Cons.prems(4)
    by (simp add: P_def U_def u_def T_def Ms_def magnitude_sum_Cons algebra_simps)
  have "1 * 1 \<le> P * U"
    using P U by (intro mult_mono) simp_all
  then have "1 * T \<le> (P * U) * T"
    using T by (intro mult_right_mono) simp_all
  then have Tb: "T < pow2 1023"
    using big by simp
  have tri: "\<bar>val s + val x\<bar> \<le> \<bar>val s\<bar> + \<bar>val x\<bar>"
    by (rule abs_triangle_ineq)
  then have "\<bar>val s + val x\<bar> \<le> T"
    using Ms by (simp add: T_def)
  then have "\<bar>val s + val x\<bar> < pow2 1023"
    using Tb by simp
  from fadd_error[OF Cons.prems(2) x(1) Cons.prems(3) x(2) this]
  have f1: "is_finite s1" and e1: "\<bar>val s1 - (val s + val x)\<bar> \<le> u * \<bar>val s + val x\<bar>"
    by (simp_all add: s1_def u_def)
  have d1: "is_double s1"
    unfolding s1_def using Cons.prems(3) x(2) by (rule is_double_fadd)
  have "u * \<bar>val s + val x\<bar> \<le> u * (\<bar>val s\<bar> + \<bar>val x\<bar>)"
    using tri u by (rule mult_left_mono)
  then have e1': "\<bar>val s1 - (val s + val x)\<bar> \<le> u * (\<bar>val s\<bar> + \<bar>val x\<bar>)"
    using e1 by simp
  have "\<bar>val s1\<bar> \<le> \<bar>val s + val x\<bar> + \<bar>val s1 - (val s + val x)\<bar>"
    by simp
  then have v1: "\<bar>val s1\<bar> \<le> U * (\<bar>val s\<bar> + \<bar>val x\<bar>)"
    using e1' tri by (simp add: U_def algebra_simps)
  have "Ms \<le> U * Ms"
    using U Ms by (simp add: mult_le_cancel_right1)
  then have T1: "\<bar>val s1\<bar> + Ms \<le> U * T"
    using v1 by (simp add: T_def algebra_simps)
  have T1pos: "0 \<le> \<bar>val s1\<bar> + Ms"
    using Ms by simp
  have "P * (\<bar>val s1\<bar> + Ms) \<le> P * (U * T)"
    using T1 P by (intro mult_left_mono) simp_all
  then have "(1 + unit_roundoff) ^ length xs * (\<bar>val s1\<bar> + magnitude_sum xs) < pow2 1023"
    using big by (simp add: P_def U_def u_def Ms_def mult.assoc)
  from Cons.IH[OF _ f1 d1 this] Cons.prems(1)
  have fin: "is_finite (foldl fadd s1 xs)" and dbl: "is_double (foldl fadd s1 xs)"
    and e2: "\<bar>val (foldl fadd s1 xs) - (val s1 + exact_sum xs)\<bar> \<le> (P - 1) * (\<bar>val s1\<bar> + Ms)"
    by (simp_all add: P_def U_def u_def Ms_def)
  have "(P - 1) * (\<bar>val s1\<bar> + Ms) \<le> (P - 1) * (U * T)"
    using T1 P by (intro mult_left_mono) simp_all
  then have e2': "\<bar>val (foldl fadd s1 xs) - (val s1 + exact_sum xs)\<bar> \<le> (P - 1) * (U * T)"
    using e2 by simp
  have "u * (\<bar>val s\<bar> + \<bar>val x\<bar>) \<le> u * T"
    using u Ms by (intro mult_left_mono) (simp_all add: T_def)
  then have e1'': "\<bar>val s1 - (val s + val x)\<bar> \<le> u * T"
    using e1' by simp
  have "\<bar>val (foldl fadd s1 xs) - (val s + (val x + exact_sum xs))\<bar> \<le>
      \<bar>val (foldl fadd s1 xs) - (val s1 + exact_sum xs)\<bar> + \<bar>val s1 - (val s + val x)\<bar>"
    by simp
  then have "\<bar>val (foldl fadd s1 xs) - (val s + (val x + exact_sum xs))\<bar> \<le>
      (P - 1) * (U * T) + u * T"
    using e2' e1'' by simp
  also have "(P - 1) * (U * T) + u * T = (P * U - 1) * T"
    by (simp add: U_def algebra_simps)
  finally have "\<bar>val (foldl fadd s1 xs) - (val s + exact_sum (x # xs))\<bar> \<le>
      ((1 + unit_roundoff) ^ length (x # xs) - 1) * (\<bar>val s\<bar> + magnitude_sum (x # xs))"
    by (simp add: exact_sum_Cons magnitude_sum_Cons P_def U_def u_def T_def Ms_def
        mult.commute add.assoc)
  then show ?case
    using fin dbl by (simp add: s1_def)
qed

text \<open>
  A mean computed as the program computes it, the sum accumulated in order and then
  divided: with \<open>n\<close> numbers its error is at most \<open>(1 + u)^(n+1) - 1\<close> times the sum
  of the magnitudes over the divisor, plus one underflow.
\<close>

lemma mean_in_order_error:
  assumes "\<forall>x \<in> set xs. is_finite x \<and> is_double x" "1 \<le> d"
    "(1 + unit_roundoff) ^ Suc (length xs) * magnitude_sum xs < pow2 1023"
  shows "is_finite (fdiv (sum_in_order xs) (Fin d)) \<and>
         \<bar>val (fdiv (sum_in_order xs) (Fin d)) - exact_sum xs / d\<bar> \<le>
           ((1 + unit_roundoff) ^ Suc (length xs) - 1) * magnitude_sum xs / d + underflow_unit"
proof -
  define u where "u = unit_roundoff"
  define P where "P = (1 + u) ^ length xs"
  define M where "M = magnitude_sum xs"
  define S where "S = exact_sum xs"
  define t where "t = sum_in_order xs"
  have u: "0 \<le> u" and P: "1 \<le> P" and M: "0 \<le> M"
    using unit_roundoff_nonneg magnitude_sum_nonneg by (simp_all add: u_def P_def M_def)
  have dpos: "0 < d"
    using assms(2) by simp
  have big: "(1 + u) * P * M < pow2 1023"
    using assms(3) by (simp add: u_def P_def M_def mult.assoc)
  have PM: "0 \<le> P * M"
    using P M by simp
  have "P * M \<le> (1 + u) * (P * M)"
    using u PM by (simp add: mult_le_cancel_right1)
  then have PMb: "P * M < pow2 1023"
    using big by (simp add: mult.assoc)
  from foldl_fadd_error[OF assms(1), of "Fin 0"] PMb
  have ft: "is_finite t" and et: "\<bar>val t - S\<bar> \<le> (P - 1) * M"
    by (simp_all add: t_def sum_in_order_def S_def P_def u_def M_def)
  have "\<bar>S\<bar> \<le> M"
    unfolding S_def M_def by (rule exact_sum_le_magnitude_sum)
  moreover have "\<bar>val t\<bar> \<le> \<bar>S\<bar> + \<bar>val t - S\<bar>"
    by simp
  ultimately have vt: "\<bar>val t\<bar> \<le> P * M"
    using et by (simp add: algebra_simps)
  have "\<bar>val t / d\<bar> = \<bar>val t\<bar> / d"
    using dpos by simp
  also have "\<dots> \<le> \<bar>val t\<bar> / 1"
    using assms(2) dpos by (intro divide_left_mono) simp_all
  finally have q: "\<bar>val t / d\<bar> \<le> \<bar>val t\<bar>"
    by simp
  then have "\<bar>val t / d\<bar> < pow2 1023"
    using vt PMb by simp
  from fdiv_error[OF ft _ this] dpos
  have fx: "is_finite (fdiv t (Fin d))"
    and ex: "\<bar>val (fdiv t (Fin d)) - val t / d\<bar> \<le> u * \<bar>val t / d\<bar> + underflow_unit"
    by (simp_all add: u_def)
  have "u * \<bar>val t / d\<bar> = u * \<bar>val t\<bar> / d"
    using dpos by simp
  also have "\<dots> \<le> u * (P * M) / d"
    using vt u dpos by (intro divide_right_mono mult_left_mono) simp_all
  finally have 1: "\<bar>val (fdiv t (Fin d)) - val t / d\<bar> \<le> u * (P * M) / d + underflow_unit"
    using ex by simp
  have "\<bar>val t / d - S / d\<bar> = \<bar>val t - S\<bar> / d"
    using dpos by (simp add: diff_divide_distrib[symmetric])
  also have "\<dots> \<le> (P - 1) * M / d"
    using et dpos by (intro divide_right_mono) simp_all
  finally have 2: "\<bar>val t / d - S / d\<bar> \<le> (P - 1) * M / d" .
  have "\<bar>val (fdiv t (Fin d)) - S / d\<bar> \<le>
      \<bar>val (fdiv t (Fin d)) - val t / d\<bar> + \<bar>val t / d - S / d\<bar>"
    by simp
  then have "\<bar>val (fdiv t (Fin d)) - S / d\<bar> \<le>
      u * (P * M) / d + underflow_unit + (P - 1) * M / d"
    using 1 2 by simp
  also have "u * (P * M) / d + underflow_unit + (P - 1) * M / d =
      ((1 + u) * P - 1) * M / d + underflow_unit"
    by (simp add: algebra_simps add_divide_distrib diff_divide_distrib)
  finally show ?thesis
    using fx by (simp add: t_def S_def M_def P_def u_def mult.commute)
qed

lemma magnitude_sum_bound:
  assumes "\<forall>x \<in> set xs. \<bar>val x\<bar> \<le> c"
  shows "magnitude_sum xs \<le> of_nat (length xs) * c"
  using assms by (induction xs) (simp_all add: magnitude_sum_def algebra_simps)

lemma growth_bounds:
  "(1 + unit_roundoff) ^ 16 \<le> 1 + 17 * unit_roundoff"
  "(1 + unit_roundoff) ^ 10 \<le> 1 + 11 * unit_roundoff"
  "(1 + unit_roundoff) ^ 16 \<le> 2"
  by (simp_all add: unit_roundoff_def power_divide)

lemma growth_mono: "i \<le> j \<Longrightarrow> (1 + unit_roundoff) ^ i \<le> (1 + unit_roundoff) ^ j"
  using unit_roundoff_nonneg by (intro power_increasing) simp_all

text \<open>Up to fifteen numbers of magnitude at most \<open>2^1002\<close> are summed without overflow.\<close>

lemma no_overflow:
  assumes "\<forall>x \<in> set xs. \<bar>val x\<bar> \<le> 2 ^ 1002" "length xs \<le> 15"
  shows "(1 + unit_roundoff) ^ Suc (length xs) * magnitude_sum xs < pow2 1023"
proof -
  have "magnitude_sum xs \<le> of_nat (length xs) * 2 ^ 1002"
    using assms(1) by (rule magnitude_sum_bound)
  also have "\<dots> \<le> 16 * 2 ^ 1002"
    using assms(2) by (intro mult_right_mono) simp_all
  finally have M: "magnitude_sum xs \<le> 16 * 2 ^ 1002" .
  have "(1 + unit_roundoff) ^ Suc (length xs) \<le> (1 + unit_roundoff) ^ 16"
    using assms(2) by (intro growth_mono) simp
  then have P: "(1 + unit_roundoff) ^ Suc (length xs) \<le> 2"
    using growth_bounds(3) by simp
  have "(1 + unit_roundoff) ^ Suc (length xs) * magnitude_sum xs \<le> 2 * (16 * 2 ^ 1002)"
    using P M magnitude_sum_nonneg[of xs] by (intro mult_mono) simp_all
  also have "(2::rat) * (16 * 2 ^ 1002) = pow2 1007"
    by (simp add: pow2_def)
  also have "pow2 1007 < pow2 1023"
    by (intro pow2_less) simp
  finally show ?thesis .
qed

lemma exact_sum_append: "exact_sum (xs @ ys) = exact_sum xs + exact_sum ys"
  and magnitude_sum_append: "magnitude_sum (xs @ ys) = magnitude_sum xs + magnitude_sum ys"
  by (simp_all add: exact_sum_def magnitude_sum_def)

lemma session_averages_value:
  assumes "\<forall>s \<in> set ss. length (lapTimes s) = 3"
  shows "session_averages m ss =
           Inr (map (\<lambda>s. fdiv (sum_in_order (lapTimes s)) (Fin 3)) ss)"
  using assms by (induction ss) (simp_all add: calculateAverageLap_value)

text \<open>The average of one session, as \<open>calculateAverageLap\<close> returns it.\<close>

lemma session_average_error:
  assumes "length xs = 3" "\<forall>x \<in> set xs. is_finite x \<and> is_double x \<and> \<bar>val x\<bar> \<le> 2 ^ 1000"
  defines "a \<equiv> fdiv (sum_in_order xs) (Fin 3)"
  shows "is_finite a" "is_double a"
    "\<bar>val a - exact_sum xs / 3\<bar> \<le>
       ((1 + unit_roundoff) ^ 4 - 1) * magnitude_sum xs / 3 + underflow_unit"
    "\<bar>val a\<bar> \<le> (1 + unit_roundoff) ^ 4 * magnitude_sum xs / 3 + underflow_unit"
    "\<bar>val a\<bar> \<le> 2 ^ 1002"
proof -
  have small: "\<forall>x \<in> set xs. \<bar>val x\<bar> \<le> 2 ^ 1002"
  proof
    fix x assume "x \<in> set xs"
    then have "\<bar>val x\<bar> \<le> 2 ^ 1000"
      using assms(2) by blast
    also have "(2::rat) ^ 1000 \<le> 2 ^ 1002"
      by (intro power_increasing) simp_all
    finally show "\<bar>val x\<bar> \<le> 2 ^ 1002" .
  qed
  have fd: "\<forall>x \<in> set xs. is_finite x \<and> is_double x"
    using assms(2) by blast
  have "(1 + unit_roundoff) ^ Suc (length xs) * magnitude_sum xs < pow2 1023"
    using small assms(1) by (intro no_overflow) simp_all
  from mean_in_order_error[OF fd _ this, of 3]
  show fin: "is_finite a"
    and err: "\<bar>val a - exact_sum xs / 3\<bar> \<le>
       ((1 + unit_roundoff) ^ 4 - 1) * magnitude_sum xs / 3 + underflow_unit"
    by (simp_all add: a_def assms(1))
  show "is_double a"
    unfolding a_def by (rule is_double_fdiv)
  have "\<bar>val a\<bar> \<le> \<bar>exact_sum xs / 3\<bar> + \<bar>val a - exact_sum xs / 3\<bar>"
    by simp
  moreover have "\<bar>exact_sum xs / 3\<bar> \<le> magnitude_sum xs / 3"
    using exact_sum_le_magnitude_sum[of xs] by simp
  ultimately show mag: "\<bar>val a\<bar> \<le>
      (1 + unit_roundoff) ^ 4 * magnitude_sum xs / 3 + underflow_unit"
    using err by (simp add: algebra_simps diff_divide_distrib)
  have "magnitude_sum xs \<le> of_nat (length xs) * 2 ^ 1000"
    using assms(2) by (intro magnitude_sum_bound) blast
  then have M: "magnitude_sum xs / 3 \<le> 2 ^ 1000"
    by (simp add: assms(1))
  have "(1 + unit_roundoff) ^ 4 \<le> (1 + unit_roundoff) ^ 16"
    by (intro growth_mono) simp
  then have P: "(1 + unit_roundoff) ^ 4 \<le> 2"
    using growth_bounds(3) by simp
  have "(1 + unit_roundoff) ^ 4 * (magnitude_sum xs / 3) \<le> 2 * 2 ^ 1000"
    using P M magnitude_sum_nonneg[of xs] by (intro mult_mono) simp_all
  moreover have "underflow_unit \<le> 1"
    using pow2_le[of "- 1075" 0] by (simp add: underflow_unit_def pow2_def)
  moreover have "(2::rat) * 2 ^ 1000 + 1 \<le> 2 ^ 1002"
    by simp
  ultimately show "\<bar>val a\<bar> \<le> 2 ^ 1002"
    using mag by simp
qed

text \<open>The averages of a list of sessions against the exact session means.\<close>

lemma session_averages_error:
  assumes "\<forall>s \<in> set ss. length (lapTimes s) = 3 \<and>
    (\<forall>x \<in> set (lapTimes s). is_finite x \<and> is_double x \<and> \<bar>val x\<bar> \<le> 2 ^ 1000)"
  defines "avs \<equiv> map (\<lambda>s. fdiv (sum_in_order (lapTimes s)) (Fin 3)) ss"
    and "laps \<equiv> concat (map lapTimes ss)"
  shows "(\<forall>a \<in> set avs. is_finite a \<and> is_double a \<and> \<bar>val a\<bar> \<le> 2 ^ 1002) \<and>
         \<bar>exact_sum avs - exact_sum laps / 3\<bar> \<le>
           ((1 + unit_roundoff) ^ 4 - 1) * magnitude_sum laps / 3 +
           of_nat (length ss) * underflow_unit \<and>
         magnitude_sum avs \<le>
           (1 + unit_roundoff) ^ 4 * magnitude_sum laps / 3 +
           of_nat (length ss) * underflow_unit"
  using assms(1) unfolding avs_def laps_def
proof (induction ss)
  case Nil
  then show ?case
    by (simp add: exact_sum_def magnitude_sum_def)
next
  case (Cons s ss)
  define K where "K = (1 + unit_roundoff) ^ 4"
  define a where "a = fdiv (sum_in_order (lapTimes s)) (Fin 3)"
  define avs where "avs = map (\<lambda>s. fdiv (sum_in_order (lapTimes s)) (Fin 3)) ss"
  define laps where "laps = concat (map lapTimes ss)"
  have s: "length (lapTimes s) = 3"
    "\<forall>x \<in> set (lapTimes s). is_finite x \<and> is_double x \<and> \<bar>val x\<bar> \<le> 2 ^ 1000"
    using Cons.prems by simp_all
  note one = session_average_error[OF s, folded a_def K_def]
  have rest: "\<forall>a \<in> set avs. is_finite a \<and> is_double a \<and> \<bar>val a\<bar> \<le> 2 ^ 1002"
    "\<bar>exact_sum avs - exact_sum laps / 3\<bar> \<le>
       (K - 1) * magnitude_sum laps / 3 + of_nat (length ss) * underflow_unit"
    "magnitude_sum avs \<le> K * magnitude_sum laps / 3 + of_nat (length ss) * underflow_unit"
    using Cons.IH Cons.prems by (simp_all add: avs_def laps_def K_def)
  have "exact_sum (a # avs) - exact_sum (lapTimes s @ laps) / 3 =
      (val a - exact_sum (lapTimes s) / 3) + (exact_sum avs - exact_sum laps / 3)"
    by (simp add: exact_sum_Cons exact_sum_append add_divide_distrib)
  then have "\<bar>exact_sum (a # avs) - exact_sum (lapTimes s @ laps) / 3\<bar> \<le>
      \<bar>val a - exact_sum (lapTimes s) / 3\<bar> + \<bar>exact_sum avs - exact_sum laps / 3\<bar>"
    by simp
  then have 2: "\<bar>exact_sum (a # avs) - exact_sum (lapTimes s @ laps) / 3\<bar> \<le>
      (K - 1) * magnitude_sum (lapTimes s @ laps) / 3 +
      of_nat (length (s # ss)) * underflow_unit"
    using one(3) rest(2)
    by (simp add: magnitude_sum_append algebra_simps add_divide_distrib diff_divide_distrib)
  have 3: "magnitude_sum (a # avs) \<le>
      K * magnitude_sum (lapTimes s @ laps) / 3 + of_nat (length (s # ss)) * underflow_unit"
    using one(4) rest(3)
    by (simp add: magnitude_sum_Cons magnitude_sum_append algebra_simps add_divide_distrib)
  show ?case
    using one(1,2,5) rest(1) 2 3
    by (simp add: a_def avs_def laps_def K_def)
qed

text \<open>What a well-formed store with bounded, finite lap times gives the two computations.\<close>

lemma stored_laps_facts:
  assumes "wf_store m" "\<forall>x \<in> set (stored_laps m). is_finite x \<and> \<bar>val x\<bar> \<le> 2 ^ 1000"
  shows "\<forall>s \<in> set (stored m). length (lapTimes s) = 3 \<and>
           (\<forall>x \<in> set (lapTimes s). is_finite x \<and> is_double x \<and> \<bar>val x\<bar> \<le> 2 ^ 1000)"
    and "length (stored_laps m) = 3 * length (stored m)"
    and "length (stored m) = nat (sessionCount m)"
    and "sessionCount m \<le> 5"
proof -
  have inv: "store_inv m"
    using assms(1) by (simp add: wf_store_def)
  show "\<forall>s \<in> set (stored m). length (lapTimes s) = 3 \<and>
      (\<forall>x \<in> set (lapTimes s). is_finite x \<and> is_double x \<and> \<bar>val x\<bar> \<le> 2 ^ 1000)"
  proof (intro ballI conjI)
    fix s assume s: "s \<in> set (stored m)"
    then have w: "wf_Session s"
      using assms(1) by (simp add: wf_store_def list_all_iff)
    then show "length (lapTimes s) = 3"
      by (simp add: wf_Session_def)
    fix x assume x: "x \<in> set (lapTimes s)"
    then show "is_double x"
      using w by (simp add: wf_Session_def list_all_iff)
    have "x \<in> set (stored_laps m)"
      using s x by (auto simp add: stored_laps_def)
    then show "is_finite x" "\<bar>val x\<bar> \<le> 2 ^ 1000"
      using assms(2) by blast+
  qed
  show "length (stored_laps m) = 3 * length (stored m)"
    unfolding stored_laps_def using wf_store_laps[OF assms(1)] by (rule length_concat_laps)
  show "length (stored m) = nat (sessionCount m)"
    using inv by (rule length_stored)
  show "sessionCount m \<le> 5"
    using inv by (simp add: store_inv_def MAX_SESSIONS_def)
qed

lemma calculateOverallAverage_error:
  assumes "wf_store m" "1 \<le> sessionCount m"
    "\<forall>x \<in> set (stored_laps m). is_finite x \<and> \<bar>val x\<bar> \<le> 2 ^ 1000"
  shows "\<exists>x. calculateOverallAverage m = Inr x \<and> is_finite x \<and>
           \<bar>val x - exact_mean (stored_laps m)\<bar> \<le>
             17 * unit_roundoff * mean_magnitude (stored_laps m) + underflow_unit"
proof -
  define L where "L = stored_laps m"
  define d :: rat where "d = of_int (3 * sessionCount m)"
  define x where "x = fdiv (sum_in_order L) (Fin d)"
  note f = stored_laps_facts[OF assms(1,3)]
  have len: "length L \<le> 15" and d: "d = of_nat (length L)" "1 \<le> d"
    using f(2,3,4) assms(2) by (simp_all add: L_def d_def)
  have fd: "\<forall>x \<in> set L. is_finite x \<and> is_double x"
    and small: "\<forall>x \<in> set L. \<bar>val x\<bar> \<le> 2 ^ 1000"
    using f(1) by (auto simp add: L_def stored_laps_def)
  have "\<forall>x \<in> set L. \<bar>val x\<bar> \<le> 2 ^ 1002"
  proof
    fix x assume "x \<in> set L"
    then have "\<bar>val x\<bar> \<le> 2 ^ 1000"
      using small by blast
    also have "(2::rat) ^ 1000 \<le> 2 ^ 1002"
      by (intro power_increasing) simp_all
    finally show "\<bar>val x\<bar> \<le> 2 ^ 1002" .
  qed
  then have "(1 + unit_roundoff) ^ Suc (length L) * magnitude_sum L < pow2 1023"
    using len by (rule no_overflow)
  from mean_in_order_error[OF fd d(2) this]
  have fin: "is_finite x"
    and err: "\<bar>val x - exact_sum L / d\<bar> \<le>
      ((1 + unit_roundoff) ^ Suc (length L) - 1) * magnitude_sum L / d + underflow_unit"
    by (simp_all add: x_def)
  have "(1 + unit_roundoff) ^ Suc (length L) \<le> (1 + unit_roundoff) ^ 16"
    using len by (intro growth_mono) simp
  then have g: "(1 + unit_roundoff) ^ Suc (length L) - 1 \<le> 17 * unit_roundoff"
    using growth_bounds(1) by simp
  have A: "0 \<le> magnitude_sum L / d"
    using magnitude_sum_nonneg[of L] d(2) by simp
  have "((1 + unit_roundoff) ^ Suc (length L) - 1) * magnitude_sum L / d =
      ((1 + unit_roundoff) ^ Suc (length L) - 1) * (magnitude_sum L / d)"
    by simp
  also have "\<dots> \<le> 17 * unit_roundoff * (magnitude_sum L / d)"
    using g A by (rule mult_right_mono)
  finally have "\<bar>val x - exact_sum L / d\<bar> \<le>
      17 * unit_roundoff * (magnitude_sum L / d) + underflow_unit"
    using err by simp
  then have bound: "\<bar>val x - exact_mean L\<bar> \<le>
      17 * unit_roundoff * mean_magnitude L + underflow_unit"
    by (simp add: exact_mean_def mean_magnitude_def d(1))
  have "\<bar>3 * sessionCount m\<bar> < 2 ^ 53"
    using f(4) assms(2) by simp
  then have "double_of_int (3 * sessionCount m) = Fin d"
    unfolding d_def by (rule double_of_int_exact)
  then have "calculateOverallAverage m = Inr x"
    using calculateOverallAverage_value[OF assms(1)] assms(2)
    by (simp add: x_def L_def stored_laps_def)
  then show ?thesis
    using fin bound by (auto simp add: L_def)
qed

lemma mean_of_session_averages_error:
  assumes "wf_store m" "1 \<le> sessionCount m"
    "\<forall>x \<in> set (stored_laps m). is_finite x \<and> \<bar>val x\<bar> \<le> 2 ^ 1000"
  shows "\<exists>y. mean_of_session_averages m = Inr y \<and> is_finite y \<and>
           \<bar>val y - exact_mean (stored_laps m)\<bar> \<le>
             11 * unit_roundoff * mean_magnitude (stored_laps m) + 3 * underflow_unit"
proof -
  define L where "L = stored_laps m"
  define avs where "avs = map (\<lambda>s. fdiv (sum_in_order (lapTimes s)) (Fin 3)) (stored m)"
  define n :: rat where "n = of_int (sessionCount m)"
  define y where "y = fdiv (sum_in_order avs) (Fin n)"
  define K where "K = (1 + unit_roundoff) ^ 4"
  define Q where "Q = (1 + unit_roundoff) ^ Suc (length avs)"
  define A where "A = magnitude_sum L / (3 * n)"
  define E where "E = exact_sum L / (3 * n)"
  define h where "h = underflow_unit"
  note f = stored_laps_facts[OF assms(1,3)]
  have n: "n = of_nat (length (stored m))" "1 \<le> n" and len: "length avs \<le> 5"
    using f(3,4) assms(2) by (simp_all add: n_def avs_def)
  have npos: "0 < n"
    using n(2) by simp
  note sa = session_averages_error[OF f(1), folded avs_def K_def,
      unfolded stored_laps_def[symmetric] L_def[symmetric] n(1)[symmetric], folded h_def]
  have h: "0 \<le> h"
    unfolding h_def by (rule underflow_unit_nonneg)
  have fd: "\<forall>a \<in> set avs. is_finite a \<and> is_double a"
    and small: "\<forall>a \<in> set avs. \<bar>val a\<bar> \<le> 2 ^ 1002"
    using sa by blast+
  have "(1 + unit_roundoff) ^ Suc (length avs) * magnitude_sum avs < pow2 1023"
    using small len by (intro no_overflow) simp_all
  from mean_in_order_error[OF fd n(2) this]
  have fin: "is_finite y"
    and a: "\<bar>val y - exact_sum avs / n\<bar> \<le> (Q - 1) * (magnitude_sum avs / n) + h"
    by (simp_all add: y_def Q_def h_def)
  have Q1: "1 \<le> Q"
    unfolding Q_def using unit_roundoff_nonneg by (intro one_le_power) simp
  have K1: "1 \<le> K"
    unfolding K_def using unit_roundoff_nonneg by (intro one_le_power) simp
  have Apos: "0 \<le> A"
    unfolding A_def using magnitude_sum_nonneg[of L] npos by simp
  have "exact_sum avs / n - E = (exact_sum avs - exact_sum L / 3) / n"
    using npos by (simp add: E_def diff_divide_distrib)
  then have "\<bar>exact_sum avs / n - E\<bar> = \<bar>exact_sum avs - exact_sum L / 3\<bar> / n"
    using npos by simp
  also have "\<dots> \<le> ((K - 1) * magnitude_sum L / 3 + n * h) / n"
    using sa npos by (intro divide_right_mono) simp_all
  also have "\<dots> = (K - 1) * A + h"
    using npos by (simp add: A_def add_divide_distrib)
  finally have b: "\<bar>exact_sum avs / n - E\<bar> \<le> (K - 1) * A + h" .
  have "magnitude_sum avs / n \<le> (K * magnitude_sum L / 3 + n * h) / n"
    using sa npos by (intro divide_right_mono) simp_all
  also have "\<dots> = K * A + h"
    using npos by (simp add: A_def add_divide_distrib)
  finally have c: "magnitude_sum avs / n \<le> K * A + h" .
  have "(Q - 1) * (magnitude_sum avs / n) \<le> (Q - 1) * (K * A + h)"
    using c Q1 by (intro mult_left_mono) simp_all
  then have a': "\<bar>val y - exact_sum avs / n\<bar> \<le> (Q - 1) * (K * A + h) + h"
    using a by simp
  have "\<bar>val y - E\<bar> \<le> \<bar>val y - exact_sum avs / n\<bar> + \<bar>exact_sum avs / n - E\<bar>"
    by simp
  then have "\<bar>val y - E\<bar> \<le> (Q - 1) * (K * A + h) + h + ((K - 1) * A + h)"
    using a' b by simp
  also have "(Q - 1) * (K * A + h) + h + ((K - 1) * A + h) = (Q * K - 1) * A + (Q + 1) * h"
    by (simp add: algebra_simps)
  finally have total: "\<bar>val y - E\<bar> \<le> (Q * K - 1) * A + (Q + 1) * h" .
  have "Q * K = (1 + unit_roundoff) ^ (Suc (length avs) + 4)"
    by (simp only: Q_def K_def power_add)
  also have "\<dots> \<le> (1 + unit_roundoff) ^ 10"
    using len by (intro growth_mono) simp
  finally have QK: "Q * K - 1 \<le> 11 * unit_roundoff"
    using growth_bounds(2) by simp
  have "Q \<le> (1 + unit_roundoff) ^ 16"
    unfolding Q_def using len by (intro growth_mono) simp
  then have Q2: "Q + 1 \<le> 3"
    using growth_bounds(3) by simp
  have "(Q * K - 1) * A \<le> 11 * unit_roundoff * A"
    using QK Apos by (rule mult_right_mono)
  moreover have "(Q + 1) * h \<le> 3 * h"
    using Q2 h by (rule mult_right_mono)
  ultimately have "\<bar>val y - E\<bar> \<le> 11 * unit_roundoff * A + 3 * h"
    using total by simp
  moreover have "E = exact_mean L" "A = mean_magnitude L"
    using f(2) by (simp_all add: E_def A_def exact_mean_def mean_magnitude_def L_def n(1))
  ultimately have bound: "\<bar>val y - exact_mean L\<bar> \<le>
      11 * unit_roundoff * mean_magnitude L + 3 * underflow_unit"
    by (simp add: h_def)
  have "\<bar>sessionCount m\<bar> < 2 ^ 53"
    using f(4) assms(2) by simp
  then have "double_of_int (sessionCount m) = Fin n"
    unfolding n_def by (rule double_of_int_exact)
  moreover have "session_averages m (stored m) = Inr avs"
    unfolding avs_def using f(1) by (intro session_averages_value) blast
  ultimately have "mean_of_session_averages m = Inr y"
    by (simp add: mean_of_session_averages_def y_def)
  then show ?thesis
    using fin bound by (auto simp add: L_def)
qed

section \<open>The claims\<close>

text \<open>
  C1. On an object that satisfies the class invariant: when five sessions are stored,
  \<open>addSession(s)\<close> returns \<open>false\<close> and the object is unchanged; when fewer are
  stored, it returns \<open>true\<close>, writes a copy of \<open>s\<close> into the slot after the stored
  sessions (so that the stored sessions are the old ones followed by \<open>s\<close>) and adds
  one to the count. Six calls on a freshly constructed object return \<open>true\<close> five
  times and then \<open>false\<close>, and the count is 5 afterwards.
\<close>

theorem addSession_capacity:
  assumes "store_inv m"
  shows "(sessionCount m = 5 \<longrightarrow> addSession m s = Inr (False, m)) \<and>
         (sessionCount m < 5 \<longrightarrow>
            (\<exists>m'. addSession m s = Inr (True, m') \<and>
                  sessions m' = (sessions m)[nat (sessionCount m) := s] \<and>
                  sessionCount m' = sessionCount m + 1 \<and>
                  stored m' = stored m @ [s])) \<and>
         (length ss = 6 \<longrightarrow>
            (\<exists>m'. addSessions (MotorsportManager_new v t) ss =
                    Inr ([True, True, True, True, True, False], m') \<and>
                  getSessionCount m' = 5 \<and> stored m' = take 5 ss))"
proof (intro conjI impI)
  assume "sessionCount m = 5"
  then show "addSession m s = Inr (False, m)"
    by (rule addSession_full)
next
  assume lt: "sessionCount m < 5"
  from assms show "\<exists>m'. addSession m s = Inr (True, m') \<and>
      sessions m' = (sessions m)[nat (sessionCount m) := s] \<and>
      sessionCount m' = sessionCount m + 1 \<and> stored m' = stored m @ [s]"
    by (cases rule: addSession_cases[where s = s]) (use lt in auto)
next
  assume len: "length ss = 6"
  have six: "map (\<lambda>k. (0::int) + int k < 5) [0..<6] = [True, True, True, True, True, False]"
    by code_simp
  from addSessions_run[OF store_inv_new, of v t ss] obtain m' where
    run: "addSessions (MotorsportManager_new v t) ss =
        Inr (map (\<lambda>k. sessionCount (MotorsportManager_new v t) + int k < 5) [0..<length ss], m')"
    and cnt: "sessionCount m' =
        min 5 (sessionCount (MotorsportManager_new v t) + int (length ss))"
    and st: "stored m' = take 5 (stored (MotorsportManager_new v t) @ ss)"
    by blast
  have "addSessions (MotorsportManager_new v t) ss =
      Inr ([True, True, True, True, True, False], m')"
    using run six by (simp only: len sessionCount_new)
  moreover have "getSessionCount m' = 5"
    using cnt by (simp add: getSessionCount_def len sessionCount_new)
  moreover have "stored m' = take 5 ss"
    using st by (simp add: stored_new)
  ultimately show "\<exists>m'. addSessions (MotorsportManager_new v t) ss =
      Inr ([True, True, True, True, True, False], m') \<and>
      getSessionCount m' = 5 \<and> stored m' = take 5 ss"
    by blast
qed

theorem addSession_capacity_witness:
  "store_inv full_store \<and> sessionCount full_store = 5 \<and>
   addSession full_store session_A = Inr (False, full_store) \<and>
   store_inv fresh_store \<and> sessionCount fresh_store < 5 \<and>
   (\<exists>m'. addSession fresh_store session_A = Inr (True, m') \<and>
         sessions m' = (sessions fresh_store)[nat (sessionCount fresh_store) := session_A] \<and>
         sessionCount m' = sessionCount fresh_store + 1 \<and>
         stored m' = stored fresh_store @ [session_A]) \<and>
   length (replicate 6 session_X) = 6 \<and>
   (\<exists>m'. addSessions fresh_store (replicate 6 session_X) =
           Inr ([True, True, True, True, True, False], m') \<and>
         getSessionCount m' = 5 \<and> stored m' = take 5 (replicate 6 session_X))"
proof -
  have full: "store_inv full_store" "sessionCount full_store = 5"
    by code_simp+
  have fresh: "store_inv fresh_store" "sessionCount fresh_store < 5"
    by code_simp+
  have len: "length (replicate 6 session_X) = 6"
    by simp
  from addSession_capacity[OF full(1), of session_A "replicate 6 session_X"] full(2)
  have a: "addSession full_store session_A = Inr (False, full_store)"
    by blast
  from addSession_capacity[OF fresh(1), of session_A "replicate 6 session_X"
      "\<lambda>i. 0" "\<lambda>i j. NaN"] fresh(2) len
  have b: "(\<exists>m'. addSession fresh_store session_A = Inr (True, m') \<and>
         sessions m' = (sessions fresh_store)[nat (sessionCount fresh_store) := session_A] \<and>
         sessionCount m' = sessionCount fresh_store + 1 \<and>
         stored m' = stored fresh_store @ [session_A])"
    and c: "(\<exists>m'. addSessions fresh_store (replicate 6 session_X) =
           Inr ([True, True, True, True, True, False], m') \<and>
         getSessionCount m' = 5 \<and> stored m' = take 5 (replicate 6 session_X))"
    unfolding fresh_store_def by blast+
  from full fresh len a b c show ?thesis
    by blast
qed

text \<open>
  C2. With at least one session stored (and every stored session a \<open>Session\<close> value),
  \<open>calculateOverallAverage()\<close> returns the sum of the lap times of the stored
  sessions, taken session by session and lap by lap, divided by the double of value
  three times the count; these are \<open>3 * count\<close> lap times.
\<close>

theorem calculateOverallAverage_mean:
  assumes "wf_store m" "1 \<le> sessionCount m"
  shows "calculateOverallAverage m =
           Inr (fdiv (sum_in_order (concat (map lapTimes (stored m))))
                     (Fin (of_int (3 * sessionCount m)))) \<and>
         int (length (concat (map lapTimes (stored m)))) = 3 * sessionCount m"
proof
  have inv: "store_inv m"
    using assms(1) by (simp add: wf_store_def)
  then have "\<bar>3 * sessionCount m\<bar> < 2 ^ 53"
    by (simp add: store_inv_def MAX_SESSIONS_def)
  then have "double_of_int (3 * sessionCount m) = Fin (of_int (3 * sessionCount m))"
    by (rule double_of_int_exact)
  then show "calculateOverallAverage m =
      Inr (fdiv (sum_in_order (concat (map lapTimes (stored m))))
                (Fin (of_int (3 * sessionCount m))))"
    using assms calculateOverallAverage_value[of m] by simp
  have "length (concat (map lapTimes (stored m))) = 3 * length (stored m)"
    using wf_store_laps[OF assms(1)] by (rule length_concat_laps)
  then show "int (length (concat (map lapTimes (stored m)))) = 3 * sessionCount m"
    using inv by (simp add: length_stored store_inv_def)
qed

theorem calculateOverallAverage_mean_witness:
  "wf_store store_P_Q \<and> 1 \<le> sessionCount store_P_Q \<and>
   calculateOverallAverage store_P_Q =
     Inr (fdiv (sum_in_order [Fin 1, Fin 0, Fin 0, Fin 4, Fin 0, Fin 0]) (Fin 6)) \<and>
   length (concat (map lapTimes (stored store_P_Q))) = 6"
proof -
  have h: "wf_store store_P_Q" "1 \<le> sessionCount store_P_Q"
    by code_simp+
  have laps: "concat (map lapTimes (stored store_P_Q)) =
      [Fin 1, Fin 0, Fin 0, Fin 4, Fin 0, Fin 0]"
    by code_simp
  have n: "sessionCount store_P_Q = 2"
    by code_simp
  from calculateOverallAverage_mean[OF h] h show ?thesis
    unfolding laps n by simp
qed

text \<open>
  C3. With no session stored, \<open>calculateOverallAverage()\<close> returns normally, and its
  value is \<open>+0.0\<close>: neither NaN nor a fault.
\<close>

theorem calculateOverallAverage_empty:
  "sessionCount m = 0 \<Longrightarrow> calculateOverallAverage m = Inr (Fin 0)"
  by (simp add: calculateOverallAverage_def)

theorem calculateOverallAverage_empty_witness:
  "sessionCount fresh_store = 0 \<and> calculateOverallAverage fresh_store = Inr (Fin 0)"
proof -
  have h: "sessionCount fresh_store = 0"
    by code_simp
  from calculateOverallAverage_empty[OF h] h show ?thesis
    by simp
qed

text \<open>
  C4. For a session with lap times \<open>a\<close>, \<open>b\<close>, \<open>c\<close> (any doubles: zero, negative,
  infinite or NaN), \<open>calculateAverageLap\<close> returns normally, and its value is the
  same number as the C++ expression \<open>(a + b + c) / 3.0\<close>. It is the identical double
  unless all three lap times are \<open>-0.0\<close>, where the function returns \<open>+0.0\<close> and the
  expression is \<open>-0.0\<close> (the loop starts from \<open>+0.0\<close>). For three lap times of
  \<open>0.0\<close> the result is \<open>0.0\<close>.
\<close>

theorem calculateAverageLap_formula:
  assumes "lapTimes s = [a, b, c]" "is_double a" "is_double b" "is_double c"
  shows "\<exists>r. calculateAverageLap m s = Inr r \<and>
             same_number r (fdiv (fadd (fadd a b) c) (Fin 3)) \<and>
             (\<not> (a = NegZero \<and> b = NegZero \<and> c = NegZero) \<longrightarrow>
                r = fdiv (fadd (fadd a b) c) (Fin 3)) \<and>
             (a = Fin 0 \<and> b = Fin 0 \<and> c = Fin 0 \<longrightarrow> r = Fin 0)"
proof -
  have ret: "calculateAverageLap m s = Inr (fdiv (sum_in_order [a, b, c]) (Fin 3))"
    using calculateAverageLap_value[of s m] assms(1) by simp
  note sum = sum_three[OF assms(2-4)]
  show ?thesis
  proof (cases "a = NegZero \<and> b = NegZero \<and> c = NegZero")
    case True
    then have "fdiv (sum_in_order [a, b, c]) (Fin 3) = Fin 0"
      and "fdiv (fadd (fadd a b) c) (Fin 3) = NegZero"
      using sum by (simp_all add: fdiv_zero_three)
    then show ?thesis
      using ret True by (simp add: same_number_def)
  next
    case False
    have eq: "fdiv (sum_in_order [a, b, c]) (Fin 3) = fdiv (fadd (fadd a b) c) (Fin 3)"
      by (simp only: sum if_not_P[OF False])
    have "a = Fin 0 \<and> b = Fin 0 \<and> c = Fin 0 \<longrightarrow> fdiv (fadd (fadd a b) c) (Fin 3) = Fin 0"
      by (simp add: fdiv_zero_three)
    then show ?thesis
      using ret eq False by (simp add: same_number_def)
  qed
qed

theorem calculateAverageLap_formula_witness:
  "lapTimes session_N = [Fin (- 1), Fin 0, Fin 4] \<and>
   is_double (Fin (- 1)) \<and> is_double (Fin 0) \<and> is_double (Fin 4) \<and>
   calculateAverageLap fresh_store session_N = Inr (Fin 1) \<and>
   fdiv (fadd (fadd (Fin (- 1)) (Fin 0)) (Fin 4)) (Fin 3) = Fin 1 \<and>
   lapTimes session_Z = [Fin 0, Fin 0, Fin 0] \<and>
   calculateAverageLap fresh_store session_Z = Inr (Fin 0)"
proof -
  have n: "lapTimes session_N = [Fin (- 1), Fin 0, Fin 4]"
    and z: "lapTimes session_Z = [Fin 0, Fin 0, Fin 0]"
    by (simp_all add: session_N_def session_Z_def)
  have d: "is_double (Fin (- 1))" "is_double (Fin 0)" "is_double (Fin 4)"
    by code_simp+
  have v: "fdiv (fadd (fadd (Fin (- 1)) (Fin 0)) (Fin 4)) (Fin 3) = Fin 1"
    by code_simp
  from calculateAverageLap_formula[OF n d, of fresh_store]
  have "calculateAverageLap fresh_store session_N = Inr (Fin 1)"
    unfolding v by auto
  moreover from calculateAverageLap_formula[OF z d(2) d(2) d(2), of fresh_store]
  have "calculateAverageLap fresh_store session_Z = Inr (Fin 0)"
    by auto
  ultimately show ?thesis
    using n z d v by simp
qed

text \<open>
  C5. \<open>getBaseLapTime\<close> returns a double for every integer a \<open>VehicleType\<close> variable
  can hold (it has no failing path): 95.0 for \<open>GT3\<close>, 70.0 for \<open>Formula\<close>, and 120.0
  for \<open>Rally\<close> and for every other value.
\<close>

theorem getBaseLapTime_total:
  "getBaseLapTime m GT3 = Fin 95 \<and>
   getBaseLapTime m Formula = Fin 70 \<and>
   getBaseLapTime m Rally = Fin 120 \<and>
   (\<forall>v. v \<noteq> GT3 \<and> v \<noteq> Formula \<longrightarrow> getBaseLapTime m v = Fin 120)"
  by (simp add: getBaseLapTime_def GT3_def Formula_def Rally_def)

theorem getBaseLapTime_total_witness:
  "(4::int) \<noteq> GT3 \<and> (4::int) \<noteq> Formula \<and> getBaseLapTime fresh_store 4 = Fin 120 \<and>
   (- 1::int) \<noteq> GT3 \<and> (- 1::int) \<noteq> Formula \<and> getBaseLapTime fresh_store (- 1) = Fin 120"
proof -
  have h: "(4::int) \<noteq> GT3 \<and> (4::int) \<noteq> Formula" "(- 1::int) \<noteq> GT3 \<and> (- 1::int) \<noteq> Formula"
    by (simp_all add: GT3_def Formula_def)
  from getBaseLapTime_total[of fresh_store] h show ?thesis
    by blast
qed

text \<open>
  C6. In every state an object can reach from its construction by calls of its member
  functions, the count is between 0 and 5; \<open>getSessionCount()\<close> returns the count
  and leaves the object as it was.
\<close>

theorem reachable_count_bounds:
  assumes "reachable m"
  shows "0 \<le> sessionCount m \<and> sessionCount m \<le> 5 \<and>
         getSessionCount m = sessionCount m \<and>
         exec GetSessionCount m = Inr (RInt (sessionCount m), m)"
proof -
  have "store_inv m"
    using reachable_wf[OF assms] by (simp add: wf_store_def)
  then show ?thesis
    by (simp add: store_inv_def MAX_SESSIONS_def getSessionCount_def)
qed

theorem reachable_count_bounds_witness:
  "reachable full_store \<and> sessionCount full_store = 5 \<and>
   getSessionCount full_store = 5 \<and>
   exec GetSessionCount full_store = Inr (RInt 5, full_store)"
proof -
  have run: "addSessions fresh_store (replicate 5 session_X) = Inr (replicate 5 True, full_store)"
    by code_simp
  have wf: "wf_call (AddSession session_X)"
    by code_simp
  have "reachable full_store"
    using addSessions_reachable[OF _ _ run] wf reachable.fresh[of "\<lambda>i. 0" "\<lambda>i j. NaN"]
    by (simp add: fresh_store_def list_all_iff)
  moreover have "sessionCount full_store = 5"
    by (simp add: full_store_def)
  ultimately show ?thesis
    using reachable_count_bounds[of full_store] by simp
qed

text \<open>
  C7. A call never disturbs what is stored: after any call that returns, the sessions
  stored before are still stored, unchanged, at the same positions (the old sequence
  is a prefix of the new one, so nothing is removed, reordered or overwritten), and a
  successful \<open>addSession(s)\<close> makes the new sequence the old one followed by \<open>s\<close>.
\<close>

theorem stored_only_grows:
  assumes "store_inv m" "exec c m = Inr (r, m')"
  shows "prefix (stored m) (stored m') \<and>
         length (stored m) \<le> length (stored m') \<and>
         (\<forall>k < length (stored m). stored m' ! k = stored m ! k) \<and>
         (\<forall>s. c = AddSession s \<and> r = RBool True \<longrightarrow> stored m' = stored m @ [s])"
proof -
  have add: "stored m' = stored m @ [s]" if "c = AddSession s" "r = RBool True" for s
    using assms(1)
  proof (cases rule: addSession_cases[where s = s])
    case full
    then show ?thesis using assms(2) that by simp
  next
    case (room m1)
    then show ?thesis using assms(2) that by simp
  qed
  from exec_effect[OF assms] have "stored m' = stored m \<or> (\<exists>s. stored m' = stored m @ [s])"
    by auto
  then have "prefix (stored m) (stored m')"
    by auto
  then show ?thesis
    using add by (auto simp add: prefix_def nth_append)
qed

theorem stored_only_grows_witness:
  "store_inv fresh_store \<and>
   (\<exists>m'. exec (AddSession session_A) fresh_store = Inr (RBool True, m') \<and>
         prefix (stored fresh_store) (stored m') \<and>
         stored m' = stored fresh_store @ [session_A]) \<and>
   store_inv store_P_Q \<and>
   (\<exists>m'. exec (AddSession session_A) store_P_Q = Inr (RBool True, m') \<and>
         stored m' = [session_P, session_Q, session_A])"
proof -
  have inv: "store_inv fresh_store" "store_inv store_P_Q"
    by code_simp+
  obtain m1 where m1: "exec (AddSession session_A) fresh_store = Inr (RBool True, m1)"
    using addSession_room[OF inv(1), of session_A] by (simp add: fresh_store_def sessionCount_new)
  obtain m2 where m2: "exec (AddSession session_A) store_P_Q = Inr (RBool True, m2)"
    using addSession_room[OF inv(2), of session_A] by (simp add: store_P_Q_def)
  have st: "stored store_P_Q = [session_P, session_Q]"
    by code_simp
  from stored_only_grows[OF inv(1) m1] stored_only_grows[OF inv(2) m2] inv m1 m2 st
  show ?thesis
    by auto
qed

text \<open>
  C8. \<open>calculateAverageLap\<close> depends on its argument only: whatever the object it is
  called on holds, the result for a session \<open>s\<close> is the same, and since the call
  leaves the object as it was, a second call on the same \<open>s\<close> returns what the first
  returned.
\<close>

theorem calculateAverageLap_stateless:
  "calculateAverageLap m s = calculateAverageLap m' s \<and>
   (exec (CalculateAverageLap s) m = Inr (r, m1) \<longrightarrow>
      m1 = m \<and> exec (CalculateAverageLap s) m1 = Inr (r, m1))"
  by (auto simp add: calculateAverageLap_def split: sum.splits)

theorem calculateAverageLap_stateless_witness:
  "calculateAverageLap fresh_store session_N = calculateAverageLap store_P_Q session_N \<and>
   exec (CalculateAverageLap session_N) fresh_store = Inr (RDouble (Fin 1), fresh_store) \<and>
   exec (CalculateAverageLap session_N) store_P_Q = Inr (RDouble (Fin 1), store_P_Q)"
proof -
  have e: "exec (CalculateAverageLap session_N) fresh_store = Inr (RDouble (Fin 1), fresh_store)"
    by code_simp
  from calculateAverageLap_stateless[of fresh_store session_N store_P_Q "RDouble (Fin 1)" fresh_store] e
  show ?thesis
    by (auto split: sum.splits)
qed

text \<open>C9. Right after construction, \<open>getSessionCount()\<close> returns 0, whatever the
  indeterminate contents of the array are.\<close>

theorem fresh_store_empty:
  "getSessionCount (MotorsportManager_new v t) = 0"
  by (simp add: getSessionCount_def MotorsportManager_new_def)

text \<open>
  C10, as the claim states it, fails. On the object that holds the two sessions with
  lap times \<open>{1, 0, 0}\<close> and \<open>{4, 0, 0}\<close>, \<open>calculateOverallAverage()\<close> returns
  \<open>5.0 / 6\<close> rounded, which is \<open>7505999378950827 / 2^53\<close>; the session averages are
  \<open>1.0 / 3\<close> and \<open>4.0 / 3\<close> rounded, and their mean, computed in doubles, is
  \<open>7505999378950826 / 2^53\<close>, one unit in the last place below.
\<close>

theorem mean_of_session_averages_counterexample:
  "addSessions fresh_store [session_P, session_Q] = Inr ([True, True], store_P_Q) \<and>
   wf_store store_P_Q \<and> 1 \<le> sessionCount store_P_Q \<and>
   calculateOverallAverage store_P_Q = Inr (Fin (7505999378950827 / 2 ^ 53)) \<and>
   mean_of_session_averages store_P_Q = Inr (Fin (7505999378950826 / 2 ^ 53)) \<and>
   calculateOverallAverage store_P_Q \<noteq> mean_of_session_averages store_P_Q"
proof -
  have a: "addSessions fresh_store [session_P, session_Q] = Inr ([True, True], store_P_Q)"
    by code_simp
  have b: "wf_store store_P_Q" "1 \<le> sessionCount store_P_Q"
    by code_simp+
  have c: "calculateOverallAverage store_P_Q = Inr (Fin (7505999378950827 / 2 ^ 53))"
    by code_simp
  have d: "mean_of_session_averages store_P_Q = Inr (Fin (7505999378950826 / 2 ^ 53))"
    by code_simp
  have "(7505999378950827 / 2 ^ 53 :: rat) \<noteq> 7505999378950826 / 2 ^ 53"
    by simp
  then show ?thesis
    using a b c d by simp
qed

text \<open>
  C10, amended. With at least one session stored, \<open>calculateOverallAverage()\<close> and
  the mean of \<open>calculateAverageLap(s)\<close> over the stored sessions both return. With
  one session stored they are the same number, the double that \<open>calculateAverageLap\<close>
  returns for that session. With finite lap times of magnitude at most \<open>2^1000\<close>
  both are finite and equal up to rounding: \<open>calculateOverallAverage()\<close> is within
  \<open>17 u a + h\<close> of the exact mean of the stored lap times and the mean of the session
  averages within \<open>11 u a + 3 h\<close>, so the two differ by at most \<open>28 u a + 4 h\<close>,
  where \<open>u = 2^-53\<close>, \<open>h = 2^-1075\<close> and \<open>a\<close> is the mean magnitude of the stored lap
  times.
\<close>

theorem overall_average_near_session_averages:
  assumes "wf_store m" "1 \<le> sessionCount m"
  shows "\<exists>x y. calculateOverallAverage m = Inr x \<and> mean_of_session_averages m = Inr y \<and>
           (sessionCount m = 1 \<longrightarrow>
              same_number y x \<and> (\<exists>s. stored m = [s] \<and> calculateAverageLap m s = Inr x)) \<and>
           ((\<forall>l \<in> set (stored_laps m). is_finite l \<and> \<bar>val l\<bar> \<le> 2 ^ 1000) \<longrightarrow>
              is_finite x \<and> is_finite y \<and>
              \<bar>val x - exact_mean (stored_laps m)\<bar> \<le>
                17 * unit_roundoff * mean_magnitude (stored_laps m) + underflow_unit \<and>
              \<bar>val y - exact_mean (stored_laps m)\<bar> \<le>
                11 * unit_roundoff * mean_magnitude (stored_laps m) + 3 * underflow_unit \<and>
              \<bar>val x - val y\<bar> \<le>
                28 * unit_roundoff * mean_magnitude (stored_laps m) + 4 * underflow_unit)"
proof -
  have inv: "store_inv m"
    using assms(1) by (simp add: wf_store_def)
  obtain x where x: "calculateOverallAverage m = Inr x"
    using calculateOverallAverage_value[OF assms(1)] assms(2) by simp
  have "session_averages m (stored m) =
      Inr (map (\<lambda>s. fdiv (sum_in_order (lapTimes s)) (Fin 3)) (stored m))"
    using wf_store_laps[OF assms(1)] by (rule session_averages_value)
  then obtain y where y: "mean_of_session_averages m = Inr y"
    by (simp add: mean_of_session_averages_def)
  have one: "same_number y x \<and> (\<exists>s. stored m = [s] \<and> calculateAverageLap m s = Inr x)"
    if c: "sessionCount m = 1"
  proof -
    have "length (stored m) = 1"
      using length_stored[OF inv] c by simp
    then obtain s where s: "stored m = [s]"
      by (cases "stored m") auto
    have len: "length (lapTimes s) = 3"
      using wf_store_laps[OF assms(1)] s by simp
    define r where "r = fdiv (sum_in_order (lapTimes s)) (Fin 3)"
    have avg: "calculateAverageLap m s = Inr r"
      using calculateAverageLap_value[OF len] by (simp add: r_def)
    have "calculateOverallAverage m = Inr r"
      using calculateOverallAverage_value[OF assms(1)] c s
      by (simp add: r_def double_of_int_3)
    then have xr: "x = r"
      using x by simp
    have "is_double r"
      by (simp add: r_def is_double_fdiv)
    then have "same_number (fdiv (sum_in_order [r]) (double_of_int 1)) r"
      by (rule mean_of_one)
    moreover have "mean_of_session_averages m = Inr (fdiv (sum_in_order [r]) (double_of_int 1))"
      using s avg c by (simp add: mean_of_session_averages_def)
    ultimately have "same_number y r"
      using y by simp
    then show ?thesis
      using s avg xr by simp
  qed
  have near: "is_finite x \<and> is_finite y \<and>
      \<bar>val x - exact_mean (stored_laps m)\<bar> \<le>
        17 * unit_roundoff * mean_magnitude (stored_laps m) + underflow_unit \<and>
      \<bar>val y - exact_mean (stored_laps m)\<bar> \<le>
        11 * unit_roundoff * mean_magnitude (stored_laps m) + 3 * underflow_unit \<and>
      \<bar>val x - val y\<bar> \<le>
        28 * unit_roundoff * mean_magnitude (stored_laps m) + 4 * underflow_unit"
    if b: "\<forall>l \<in> set (stored_laps m). is_finite l \<and> \<bar>val l\<bar> \<le> 2 ^ 1000"
  proof -
    from calculateOverallAverage_error[OF assms b] x
    have fx: "is_finite x"
      and ex: "\<bar>val x - exact_mean (stored_laps m)\<bar> \<le>
        17 * unit_roundoff * mean_magnitude (stored_laps m) + underflow_unit"
      by auto
    from mean_of_session_averages_error[OF assms b] y
    have fy: "is_finite y"
      and ey: "\<bar>val y - exact_mean (stored_laps m)\<bar> \<le>
        11 * unit_roundoff * mean_magnitude (stored_laps m) + 3 * underflow_unit"
      by auto
    have "\<bar>val x - val y\<bar> \<le>
        \<bar>val x - exact_mean (stored_laps m)\<bar> + \<bar>val y - exact_mean (stored_laps m)\<bar>"
      by simp
    then have "\<bar>val x - val y\<bar> \<le>
        28 * unit_roundoff * mean_magnitude (stored_laps m) + 4 * underflow_unit"
      using ex ey by simp
    then show ?thesis
      using fx fy ex ey by simp
  qed
  show ?thesis
    using x y one near by blast
qed

theorem overall_average_near_session_averages_witness:
  "wf_store store_P_Q \<and> sessionCount store_P_Q = 2 \<and>
   stored_laps store_P_Q = [Fin 1, Fin 0, Fin 0, Fin 4, Fin 0, Fin 0] \<and>
   exact_mean (stored_laps store_P_Q) = 5 / 6 \<and>
   mean_magnitude (stored_laps store_P_Q) = 5 / 6 \<and>
   calculateOverallAverage store_P_Q = Inr (Fin (7505999378950827 / 2 ^ 53)) \<and>
   mean_of_session_averages store_P_Q = Inr (Fin (7505999378950826 / 2 ^ 53)) \<and>
   \<bar>7505999378950827 / 2 ^ 53 - 5 / 6\<bar> \<le> 17 * unit_roundoff * (5 / 6) + underflow_unit \<and>
   \<bar>7505999378950826 / 2 ^ 53 - 5 / 6\<bar> \<le> 11 * unit_roundoff * (5 / 6) + 3 * underflow_unit \<and>
   \<bar>7505999378950827 / 2 ^ 53 - 7505999378950826 / 2 ^ 53\<bar> \<le>
     28 * unit_roundoff * (5 / 6) + 4 * underflow_unit \<and>
   wf_store store_A \<and> sessionCount store_A = 1 \<and> stored store_A = [session_A] \<and>
   calculateAverageLap store_A session_A = Inr (Fin 70) \<and>
   calculateOverallAverage store_A = Inr (Fin 70) \<and>
   mean_of_session_averages store_A = Inr (Fin 70)"
proof -
  have p: "wf_store store_P_Q" "sessionCount store_P_Q = 2"
    by code_simp+
  have laps: "stored_laps store_P_Q = [Fin 1, Fin 0, Fin 0, Fin 4, Fin 0, Fin 0]"
    by code_simp
  have means: "exact_mean (stored_laps store_P_Q) = 5 / 6"
    "mean_magnitude (stored_laps store_P_Q) = 5 / 6"
    unfolding laps by (simp_all add: exact_mean_def mean_magnitude_def exact_sum_def
        magnitude_sum_def)
  have bounded: "\<forall>l \<in> set (stored_laps store_P_Q). is_finite l \<and> \<bar>val l\<bar> \<le> 2 ^ 1000"
    unfolding laps by simp
  have x: "calculateOverallAverage store_P_Q = Inr (Fin (7505999378950827 / 2 ^ 53))"
    and y: "mean_of_session_averages store_P_Q = Inr (Fin (7505999378950826 / 2 ^ 53))"
    by code_simp+
  from overall_average_near_session_averages[of store_P_Q] p bounded x y
  have near:
    "\<bar>7505999378950827 / 2 ^ 53 - 5 / 6\<bar> \<le> 17 * unit_roundoff * (5 / 6) + underflow_unit"
    "\<bar>7505999378950826 / 2 ^ 53 - 5 / 6\<bar> \<le> 11 * unit_roundoff * (5 / 6) + 3 * underflow_unit"
    "\<bar>7505999378950827 / 2 ^ 53 - 7505999378950826 / 2 ^ 53\<bar> \<le>
       28 * unit_roundoff * (5 / 6) + 4 * underflow_unit"
    unfolding means by auto
  have a: "wf_store store_A" "sessionCount store_A = 1"
    by code_simp+
  have st: "stored store_A = [session_A]"
    by code_simp
  have avg: "calculateAverageLap store_A session_A = Inr (Fin 70)"
    by code_simp
  from overall_average_near_session_averages[of store_A] a obtain x' y' where
    "calculateOverallAverage store_A = Inr x'" "mean_of_session_averages store_A = Inr y'"
    "same_number y' x'" "\<exists>s. stored store_A = [s] \<and> calculateAverageLap store_A s = Inr x'"
    by auto
  then have one: "calculateOverallAverage store_A = Inr (Fin 70)"
    "mean_of_session_averages store_A = Inr (Fin 70)"
    using st avg by (auto simp add: same_number_def)
  show ?thesis
    using p laps means x y near a st avg one by simp
qed

end
